theory Spec2Isabelle
  imports Complex_Main
begin

section \<open>The Monte Carlo solver (src/Axb-MonteCarlo.c, src/simpleAxbMC.c)\<close>

definition MAX_DIM :: nat where
  "MAX_DIM = 1000"

text \<open>
  The struct of the solver. The C type \<open>double\<close> is modelled by \<^typ>\<open>real\<close>: rounding,
  infinities and NaN are not part of the model. The fixed-size arrays are total
  functions on the index; every access the model makes is below \<open>MAX_DIM\<close> whenever the
  dimension is, and \<open>read_input\<close> refuses any other dimension. The dimension is a
  natural number: the loops over \<open>0 .. n - 1\<close> do nothing for a C dimension of zero or
  less.
\<close>

record MonteCarloData =
  mc_n :: nat
  mc_A :: "nat \<Rightarrow> nat \<Rightarrow> real"
  mc_b :: "nat \<Rightarrow> real"
  mc_C :: "nat \<Rightarrow> nat \<Rightarrow> real"
  mc_f :: "nat \<Rightarrow> real"
  mc_row_sum :: "nat \<Rightarrow> real"
  mc_start_idx :: int
  mc_end_idx :: int
  mc_num_walks :: int

subsection \<open>prepare_iteration_form\<close>

text \<open>
  \<open>set_C\<close> stores one entry of the matrix \<open>C\<close>. \<open>prepare_row\<close> is the inner loop over
  \<open>j\<close> of \<open>prepare_iteration_form\<close>: it writes \<open>C[i][j]\<close> and adds its magnitude to
  \<open>row_sum[i]\<close>.
\<close>

definition set_C :: "MonteCarloData \<Rightarrow> nat \<Rightarrow> nat \<Rightarrow> real \<Rightarrow> MonteCarloData" where
  "set_C data i j v = data\<lparr>mc_C := (mc_C data)(i := (mc_C data i)(j := v))\<rparr>"

function prepare_row :: "MonteCarloData \<Rightarrow> nat \<Rightarrow> real \<Rightarrow> nat \<Rightarrow> MonteCarloData" where
  "prepare_row data i diag j =
     (if j < mc_n data then
        let data1 = (if i = j then set_C data i j 0
                     else set_C data i j (- mc_A data i j / diag));
            data2 = data1\<lparr>mc_row_sum :=
                      (mc_row_sum data1)(i := mc_row_sum data1 i + \<bar>mc_C data1 i j\<bar>)\<rparr>
        in prepare_row data2 i diag (j + 1)
      else data)"
  by pat_completeness auto
termination
  by (relation "measure (\<lambda>(data, i, diag, j). mc_n data - j)")
     (auto simp: set_C_def)

declare prepare_row.simps [simp del]

lemma prepare_row_n [simp]: "mc_n (prepare_row data i diag j) = mc_n data"
  by (induction data i diag j rule: prepare_row.induct)
     (subst prepare_row.simps, simp add: set_C_def Let_def)

text \<open>
  The outer loop over the rows. The result is the return code (\<open>-1\<close> at the first
  diagonal element below \<open>1e-12\<close> in magnitude, \<open>0\<close> otherwise) and the data as the
  function leaves it. The convergence warning only prints and is left out.
\<close>

function prepare_rows :: "MonteCarloData \<Rightarrow> nat \<Rightarrow> int \<times> MonteCarloData" where
  "prepare_rows data i =
     (if i < mc_n data then
        let diag = mc_A data i i in
        if \<bar>diag\<bar> < 1 / 10 ^ 12 then (- 1, data)
        else
          let data1 = data\<lparr>mc_f := (mc_f data)(i := mc_b data i / diag)\<rparr>;
              data2 = data1\<lparr>mc_row_sum := (mc_row_sum data1)(i := 0)\<rparr>;
              data3 = prepare_row data2 i diag 0
          in prepare_rows data3 (i + 1)
      else (0, data))"
  by pat_completeness auto
termination
  by (relation "measure (\<lambda>(data, i). mc_n data - i)") auto

definition prepare_iteration_form :: "MonteCarloData \<Rightarrow> int \<times> MonteCarloData" where
  "prepare_iteration_form data = prepare_rows data 0"

declare prepare_rows.simps [simp del]

subsection \<open>rand_double and random_walk\<close>

text \<open>
  The C library generator is a global, mutable resource. It is modelled by the sequence
  \<open>rnd\<close> of the values that successive calls of \<open>rand()\<close> return, together with the
  number of calls made so far; \<open>rand_double\<close> returns the draw and the advanced count.
  \<open>RAND_MAX\<close> is the constant of the C library (the glibc value is taken here).
\<close>

definition RAND_MAX :: nat where
  "RAND_MAX = 2147483647"

definition rand_double :: "(nat \<Rightarrow> nat) \<Rightarrow> nat \<Rightarrow> real \<times> nat" where
  "rand_double rnd pos = (real (rnd pos) / (real RAND_MAX + 1), pos + 1)"

definition MAX_STEPS :: nat where
  "MAX_STEPS = 10000"

definition TERMINATION_PROB :: real where
  "TERMINATION_PROB = 1 / 10"

text \<open>
  The local variables of \<open>random_walk\<close>, with the generator's call count. The field
  \<open>ws_contribs\<close> is not a variable of the source: it counts the executions of the
  statement \<open>sum += weight * data->f[current_state]\<close> and is never read by the walk.
\<close>

record walk_state =
  ws_sum :: real
  ws_current_state :: nat
  ws_weight :: real
  ws_pos :: nat
  ws_contribs :: nat

text \<open>
  The inner loop over \<open>j\<close>: the first \<open>j\<close> whose running sum reaches \<open>r\<close> becomes the
  next state and the weight is multiplied twice; when no \<open>j\<close> qualifies the walk stays
  where it is with its weight unchanged (\<open>next_state\<close> was initialised to
  \<open>current_state\<close>).
\<close>

function select_next ::
  "MonteCarloData \<Rightarrow> nat \<Rightarrow> real \<Rightarrow> nat \<Rightarrow> real \<Rightarrow> real \<Rightarrow> nat \<times> real" where
  "select_next data current_state r j cumsum weight =
     (if j < mc_n data then
        let cumsum1 = cumsum + \<bar>mc_C data current_state j\<bar> in
        if r \<le> cumsum1 then
          (j, weight * (if mc_C data current_state j \<ge> 0 then 1 else - 1)
                * (mc_row_sum data current_state / (1 - TERMINATION_PROB)))
        else select_next data current_state r (j + 1) cumsum1 weight
      else (current_state, weight))"
  by pat_completeness auto
termination
  by (relation "measure (\<lambda>(data, current_state, r, j, cumsum, weight). mc_n data - j)") auto

declare select_next.simps [simp del]

function walk_loop ::
  "MonteCarloData \<Rightarrow> (nat \<Rightarrow> nat) \<Rightarrow> nat \<Rightarrow> walk_state \<Rightarrow> walk_state" where
  "walk_loop data rnd step st =
     (if step < MAX_STEPS then
        let st1 = st\<lparr>ws_sum := ws_sum st + ws_weight st * mc_f data (ws_current_state st),
                      ws_contribs := ws_contribs st + 1\<rparr>;
            draw1 = rand_double rnd (ws_pos st1);
            st2 = st1\<lparr>ws_pos := snd draw1\<rparr>
        in
        if fst draw1 < TERMINATION_PROB then st2
        else if mc_row_sum data (ws_current_state st2) < 1 / 10 ^ 12 then st2
        else
          let draw2 = rand_double rnd (ws_pos st2);
              r = fst draw2 * mc_row_sum data (ws_current_state st2);
              chosen = select_next data (ws_current_state st2) r 0 0 (ws_weight st2)
          in walk_loop data rnd (step + 1)
               (st2\<lparr>ws_current_state := fst chosen, ws_weight := snd chosen,
                     ws_pos := snd draw2\<rparr>)
      else st)"
  by pat_completeness auto
termination
  by (relation "measure (\<lambda>(data, rnd, step, st). MAX_STEPS - step)") auto

declare walk_loop.simps [simp del]

text \<open>
  \<open>random_walk\<close> returns the accumulated sum; the model returns the generator's call
  count with it. \<open>start_state\<close> indexes the arrays, so it is a natural number here; the
  caller checks the range of the C integer it passes.
\<close>

definition walk_init :: "nat \<Rightarrow> nat \<Rightarrow> walk_state" where
  "walk_init start_state pos =
     \<lparr>ws_sum = 0, ws_current_state = start_state, ws_weight = 1, ws_pos = pos,
      ws_contribs = 0\<rparr>"

definition random_walk ::
  "MonteCarloData \<Rightarrow> (nat \<Rightarrow> nat) \<Rightarrow> nat \<Rightarrow> nat \<Rightarrow> real \<times> nat" where
  "random_walk data rnd start_state pos =
     (let st = walk_loop data rnd 0 (walk_init start_state pos)
      in (ws_sum st, ws_pos st))"

subsection \<open>compute_solution and write_output\<close>

text \<open>
  What the C code leaves undefined is an error value of the model: an array access
  outside \<open>0 .. MAX_DIM - 1\<close>, an \<open>int\<close> computation that leaves the 32-bit range,
  and (in the validator) a vector resized to a negative length.
\<close>

datatype error = OutOfBounds | SignedOverflow | LengthError

definition INT_MAX :: int where
  "INT_MAX = 2147483647"

definition INT_MIN :: int where
  "INT_MIN = - 2147483648"

definition int_ok :: "int \<Rightarrow> bool" where
  "int_ok x \<longleftrightarrow> INT_MIN \<le> x \<and> x \<le> INT_MAX"

text \<open>
  The loop over the walks of one component. \<open>random_walk(data, i)\<close> reads
  \<open>data->f[i]\<close> first, so a call with \<open>i\<close> outside the arrays is an error.
\<close>

function walks_loop ::
  "MonteCarloData \<Rightarrow> (nat \<Rightarrow> nat) \<Rightarrow> int \<Rightarrow> int \<Rightarrow> real \<Rightarrow> nat \<Rightarrow> error + real \<times> nat" where
  "walks_loop data rnd i walk acc pos =
     (if walk < mc_num_walks data then
        if i < 0 \<or> int MAX_DIM \<le> i then Inl OutOfBounds
        else
          let sample = random_walk data rnd (nat i) pos
          in walks_loop data rnd i (walk + 1) (acc + fst sample) (snd sample)
      else Inr (acc, pos))"
  by pat_completeness auto
termination
  by (relation "measure (\<lambda>(data, rnd, i, walk, acc, pos). nat (mc_num_walks data - walk))") auto

declare walks_loop.simps [simp del]

text \<open>
  The loop over the components. \<open>x_partial\<close> is the caller's array of \<open>MAX_DIM\<close>
  doubles. The progress report to BOINC and the printing have no effect on the result.
  The average is the C division of a double by a long converted to double; for
  \<open>num_walks = 0\<close> C yields NaN where the model yields 0.
\<close>

function components_loop ::
  "MonteCarloData \<Rightarrow> (nat \<Rightarrow> nat) \<Rightarrow> int \<Rightarrow> int \<Rightarrow> (nat \<Rightarrow> real) \<Rightarrow> nat \<Rightarrow>
   error + (nat \<Rightarrow> real) \<times> nat" where
  "components_loop data rnd num_components idx x_partial pos =
     (if idx < num_components then
        let i = mc_start_idx data + idx in
        if \<not> int_ok i then Inl SignedOverflow
        else
          case walks_loop data rnd i 0 0 pos of
            Inl e \<Rightarrow> Inl e
          | Inr walked \<Rightarrow>
              if idx < 0 \<or> int MAX_DIM \<le> idx then Inl OutOfBounds
              else components_loop data rnd num_components (idx + 1)
                     (x_partial(nat idx := fst walked / real_of_int (mc_num_walks data)))
                     (snd walked)
      else Inr (x_partial, pos))"
  by pat_completeness auto
termination
  by (relation "measure (\<lambda>(data, rnd, num_components, idx, x_partial, pos).
                   nat (num_components - idx))") auto

declare components_loop.simps [simp del]

definition compute_solution ::
  "MonteCarloData \<Rightarrow> (nat \<Rightarrow> nat) \<Rightarrow> (nat \<Rightarrow> real) \<Rightarrow> nat \<Rightarrow> error + (nat \<Rightarrow> real) \<times> nat" where
  "compute_solution data rnd x_partial pos =
     (if \<not> int_ok (mc_end_idx data - mc_start_idx data) \<or>
         \<not> int_ok (mc_end_idx data - mc_start_idx data + 1)
      then Inl SignedOverflow
      else components_loop data rnd (mc_end_idx data - mc_start_idx data + 1) 0 x_partial pos)"

text \<open>
  An output file as the validator reads it back: \<open>rf_range\<close> is the pair that
  \<open>fscanf("%d %d")\<close> converts at the start of the file (\<open>None\<close> when it cannot), and
  \<open>rf_values\<close> are the numbers that successive \<open>fscanf("%lf")\<close> calls convert after
  it. \<open>write_output\<close> writes the range and then one value per line for the components
  \<open>0 .. num_components - 1\<close> of \<open>x_partial\<close>; \<open>creatable\<close> says whether \<open>fopen\<close> succeeds.
\<close>

record result_file =
  rf_range :: "(int \<times> int) option"
  rf_values :: "real list"

definition write_output ::
  "bool \<Rightarrow> MonteCarloData \<Rightarrow> (nat \<Rightarrow> real) \<Rightarrow> int \<times> result_file option" where
  "write_output creatable data x_partial =
     (if \<not> creatable then (- 1, None)
      else (0, Some \<lparr>rf_range = Some (mc_start_idx data, mc_end_idx data),
                      rf_values = map x_partial
                        [0..<nat (mc_end_idx data - mc_start_idx data + 1)]\<rparr>))"

section \<open>The validator (server/axb_validator.cpp)\<close>

text \<open>
  The vector \<open>values\<close> of the C struct is the field \<open>values'\<close>.
\<close>

record PartialSolution =
  start_idx :: int
  end_idx :: int
  values' :: "real list"

text \<open>
  Of a BOINC \<open>RESULT\<close> the validator uses the identity and what
  \<open>get_output_file_infos\<close> (a BOINC library function) yields for it: its return value
  and the list of output files. A file that \<open>fopen\<close> cannot open is \<open>None\<close>.
\<close>

record RESULT =
  res_id :: int
  res_infos_retval :: int
  res_files :: "result_file option list"

text \<open>
  \<open>parse_result\<close>: \<open>Inr None\<close> is the return value \<open>-1\<close>, \<open>Inr (Some sol)\<close> the return
  value \<open>0\<close> with \<open>sol\<close> filled in. A number that does not fit an \<open>int\<close> makes the
  conversion undefined, as is the overflow of \<open>end_idx - start_idx + 1\<close>. A declared
  range of negative length makes \<open>vector::resize\<close> throw, which nothing catches.
\<close>

definition parse_result :: "result_file option \<Rightarrow> error + PartialSolution option" where
  "parse_result file =
     (case file of
        None \<Rightarrow> Inr None
      | Some contents \<Rightarrow>
          (case rf_range contents of
             None \<Rightarrow> Inr None
           | Some (s, e) \<Rightarrow>
               if \<not> int_ok s \<or> \<not> int_ok e \<or> \<not> int_ok (e - s) \<or> \<not> int_ok (e - s + 1)
               then Inl SignedOverflow
               else
                 let num_components = e - s + 1 in
                 if num_components < 0 then Inl LengthError
                 else if length (rf_values contents) < nat num_components then Inr None
                 else Inr (Some \<lparr>start_idx = s, end_idx = e,
                                  values' = take (nat num_components) (rf_values contents)\<rparr>)))"

text \<open>
  The first part of the body of the loop over the results in \<open>check_set\<close>: the three
  \<open>continue\<close> statements that skip a result without a usable output file.
\<close>

definition result_solution :: "RESULT \<Rightarrow> error + PartialSolution option" where
  "result_solution r =
     (if res_infos_retval r \<noteq> 0 then Inr None
      else case res_files r of
             [] \<Rightarrow> Inr None
           | file # others \<Rightarrow> parse_result file)"

text \<open>
  The error measure of the overlap check: relative to the average magnitude when that
  exceeds \<open>1e-10\<close>, absolute otherwise.
\<close>

definition overlap_error :: "real \<Rightarrow> real \<Rightarrow> real" where
  "overlap_error a b =
     (let diff = \<bar>a - b\<bar>;
          avg = (\<bar>a\<bar> + \<bar>b\<bar>) / 2
      in if avg > 1 / 10 ^ 10 then diff / avg else diff)"

text \<open>
  The value that the coverage map currently holds for an index: the entry of the
  solution the map names (\<open>solutions[prev_sol_idx].values[prev_local_idx]\<close>).
  \<open>conflict_at\<close> is the test of the overlap loop at one index.
\<close>

definition claimed_value :: "PartialSolution list \<Rightarrow> (int \<rightharpoonup> nat) \<Rightarrow> int \<Rightarrow> real option" where
  "claimed_value solutions component_coverage idx =
     (case component_coverage idx of
        None \<Rightarrow> None
      | Some prev_sol_idx \<Rightarrow>
          Some (values' (solutions ! prev_sol_idx)
                  ! nat (idx - start_idx (solutions ! prev_sol_idx))))"

definition conflict_at ::
  "PartialSolution list \<Rightarrow> (int \<rightharpoonup> nat) \<Rightarrow> PartialSolution \<Rightarrow> int \<Rightarrow> bool" where
  "conflict_at solutions component_coverage sol idx =
     (case claimed_value solutions component_coverage idx of
        None \<Rightarrow> False
      | Some prev \<Rightarrow> overlap_error (values' sol ! nat (idx - start_idx sol)) prev > 1 / 100)"

text \<open>
  The overlap loop; the result is the flag \<open>valid\<close>. The loop leaves at the first
  conflict. Incrementing \<open>idx\<close> past \<open>INT_MAX\<close> is undefined in C.
\<close>

function check_overlap ::
  "PartialSolution list \<Rightarrow> (int \<rightharpoonup> nat) \<Rightarrow> PartialSolution \<Rightarrow> int \<Rightarrow> error + bool" where
  "check_overlap solutions component_coverage sol idx =
     (if idx \<le> end_idx sol then
        if conflict_at solutions component_coverage sol idx then Inr False
        else if idx = INT_MAX then Inl SignedOverflow
        else check_overlap solutions component_coverage sol (idx + 1)
      else Inr True)"
  by pat_completeness auto
termination
  by (relation "measure (\<lambda>(solutions, component_coverage, sol, idx). nat (end_idx sol + 1 - idx))")
     auto

declare check_overlap.simps [simp del]

text \<open>
  The loop that marks the components of an accepted solution as covered.
\<close>

function mark_covered ::
  "(int \<rightharpoonup> nat) \<Rightarrow> PartialSolution \<Rightarrow> nat \<Rightarrow> int \<Rightarrow> error + (int \<rightharpoonup> nat)" where
  "mark_covered component_coverage sol sol_idx idx =
     (if idx \<le> end_idx sol then
        if idx = INT_MAX then Inl SignedOverflow
        else mark_covered (component_coverage(idx \<mapsto> sol_idx)) sol sol_idx (idx + 1)
      else Inr component_coverage)"
  by pat_completeness auto
termination
  by (relation "measure (\<lambda>(component_coverage, sol, sol_idx, idx). nat (end_idx sol + 1 - idx))")
     auto

declare mark_covered.simps [simp del]

text \<open>
  The state of the loop over the results: the accepted solutions in order of arrival and
  the coverage map from component index to the position of a solution in that list.
\<close>

type_synonym merge_state = "PartialSolution list \<times> (int \<rightharpoonup> nat)"

definition merge_step :: "RESULT \<Rightarrow> merge_state \<Rightarrow> error + merge_state" where
  "merge_step r st =
     (case result_solution r of
        Inl e \<Rightarrow> Inl e
      | Inr None \<Rightarrow> Inr st
      | Inr (Some sol) \<Rightarrow>
          (case check_overlap (fst st) (snd st) sol (start_idx sol) of
             Inl e \<Rightarrow> Inl e
           | Inr valid \<Rightarrow>
               if \<not> valid then Inr st
               else
                 (case mark_covered (snd st) sol (length (fst st)) (start_idx sol) of
                    Inl e \<Rightarrow> Inl e
                  | Inr covered \<Rightarrow> Inr (fst st @ [sol], covered))))"

fun merge_results :: "RESULT list \<Rightarrow> merge_state \<Rightarrow> error + merge_state" where
  "merge_results [] st = Inr st"
| "merge_results (r # rs) st =
     (case merge_step r st of
        Inl e \<Rightarrow> Inl e
      | Inr st1 \<Rightarrow> merge_results rs st1)"

text \<open>
  The three loops after the merge: the largest end index (starting from 0), the
  completeness check over \<open>0 .. max_idx\<close> (which does not stop at the first gap), and the
  credit.
\<close>

fun max_idx_loop :: "PartialSolution list \<Rightarrow> int \<Rightarrow> int" where
  "max_idx_loop [] max_idx = max_idx"
| "max_idx_loop (sol # sols) max_idx =
     max_idx_loop sols (if end_idx sol > max_idx then end_idx sol else max_idx)"

function complete_loop :: "(int \<rightharpoonup> nat) \<Rightarrow> int \<Rightarrow> int \<Rightarrow> bool \<Rightarrow> error + bool" where
  "complete_loop component_coverage max_idx idx is_complete =
     (if idx \<le> max_idx then
        let is_complete1 = (if component_coverage idx = None then False else is_complete) in
        if idx = INT_MAX then Inl SignedOverflow
        else complete_loop component_coverage max_idx (idx + 1) is_complete1
      else Inr is_complete)"
  by pat_completeness auto
termination
  by (relation "measure (\<lambda>(component_coverage, max_idx, idx, is_complete). nat (max_idx + 1 - idx))")
     auto

declare complete_loop.simps [simp del]

fun credit_loop :: "PartialSolution list \<Rightarrow> real \<Rightarrow> real" where
  "credit_loop [] credit = credit"
| "credit_loop (sol # sols) credit =
     credit_loop sols (credit + real_of_int (end_idx sol - start_idx sol + 1) * 10)"

text \<open>
  \<open>check_set\<close> returns a code and writes to three reference parameters; the model
  returns all four. \<open>canonicalid\<close> and \<open>credit\<close> are passed in with the values the caller
  holds, since the failure paths leave them untouched. \<open>results[0]\<close> of an empty vector
  would be out of bounds.
\<close>

record check_set_out =
  cs_retval :: int
  cs_canonicalid :: int
  cs_credit :: real
  cs_retry :: bool

definition check_set :: "RESULT list \<Rightarrow> int \<Rightarrow> real \<Rightarrow> error + check_set_out" where
  "check_set results canonicalid credit =
     (case merge_results results ([], Map.empty) of
        Inl e \<Rightarrow> Inl e
      | Inr (solutions, component_coverage) \<Rightarrow>
          if solutions = [] then
            Inr \<lparr>cs_retval = - 1, cs_canonicalid = canonicalid, cs_credit = credit,
                 cs_retry = True\<rparr>
          else
            (case complete_loop component_coverage (max_idx_loop solutions 0) 0 True of
               Inl e \<Rightarrow> Inl e
             | Inr is_complete \<Rightarrow>
                 if \<not> is_complete then
                   Inr \<lparr>cs_retval = - 1, cs_canonicalid = canonicalid, cs_credit = credit,
                        cs_retry = True\<rparr>
                 else
                   (case results of
                      [] \<Rightarrow> Inl OutOfBounds
                    | first # others \<Rightarrow>
                        Inr \<lparr>cs_retval = 0, cs_canonicalid = res_id first,
                             cs_credit = credit_loop solutions 0, cs_retry = False\<rparr>)))"

section \<open>The specification's wording\<close>

subsection \<open>One walk and the estimate of a component\<close>

text \<open>
  A second description of one walk, following the specification's wording rather than
  the C loops: the walk is a recursion on the number of steps still allowed; the next
  state is found by inversion of the cumulative sums of \<open>|C[current][j]|\<close>, that is the
  least \<open>j\<close> whose cumulative sum reaches the scaled draw; \<open>spec_sign\<close> is the sign
  factor, \<open>+1\<close> for a non-negative entry and \<open>-1\<close> for a negative one. The
  specification does not say what happens when no \<open>j\<close> is reached; the last case of
  \<open>spec_walk\<close> then leaves state and weight alone.
\<close>

definition uniform :: "(nat \<Rightarrow> nat) \<Rightarrow> nat \<Rightarrow> real" where
  "uniform rnd k = fst (rand_double rnd k)"

definition spec_sign :: "real \<Rightarrow> real" where
  "spec_sign x = (if x \<ge> 0 then 1 else - 1)"

definition spec_inversion :: "MonteCarloData \<Rightarrow> nat \<Rightarrow> real \<Rightarrow> nat option" where
  "spec_inversion data i r =
     List.find (\<lambda>j. r \<le> (\<Sum>k\<le>j. \<bar>mc_C data i k\<bar>)) [0..<mc_n data]"

primrec spec_walk ::
  "nat \<Rightarrow> MonteCarloData \<Rightarrow> (nat \<Rightarrow> nat) \<Rightarrow> nat \<Rightarrow> real \<Rightarrow> real \<Rightarrow> nat \<Rightarrow> real \<times> nat" where
  "spec_walk 0 data rnd current weight acc pos = (acc, pos)"
| "spec_walk (Suc m) data rnd current weight acc pos =
     (let acc1 = acc + weight * mc_f data current in
      if uniform rnd pos < 1 / 10 then (acc1, pos + 1)
      else if mc_row_sum data current < 1 / 10 ^ 12 then (acc1, pos + 1)
      else
        (case spec_inversion data current (uniform rnd (pos + 1) * mc_row_sum data current) of
           Some j \<Rightarrow>
             spec_walk m data rnd j
               (weight * (spec_sign (mc_C data current j) * mc_row_sum data current / (1 - 1 / 10)))
               acc1 (pos + 2)
         | None \<Rightarrow> spec_walk m data rnd current weight acc1 (pos + 2)))"

text \<open>
  The estimate as the specification words it: the samples of \<open>m\<close> successive walks from
  state \<open>i\<close>, their sum divided by \<open>num_walks\<close>; \<open>component_start k\<close> is the generator's
  call count when the walks of the \<open>k\<close>-th component of the range begin.
\<close>

primrec walk_samples ::
  "nat \<Rightarrow> MonteCarloData \<Rightarrow> (nat \<Rightarrow> nat) \<Rightarrow> nat \<Rightarrow> nat \<Rightarrow> real list \<times> nat" where
  "walk_samples 0 data rnd i pos = ([], pos)"
| "walk_samples (Suc m) data rnd i pos =
     (let sample = random_walk data rnd i pos;
          rest = walk_samples m data rnd i (snd sample)
      in (fst sample # fst rest, snd rest))"

definition spec_estimate :: "MonteCarloData \<Rightarrow> (nat \<Rightarrow> nat) \<Rightarrow> nat \<Rightarrow> nat \<Rightarrow> real" where
  "spec_estimate data rnd i pos =
     sum_list (fst (walk_samples (nat (mc_num_walks data)) data rnd i pos))
       / real_of_int (mc_num_walks data)"

primrec component_start :: "nat \<Rightarrow> MonteCarloData \<Rightarrow> (nat \<Rightarrow> nat) \<Rightarrow> nat \<Rightarrow> nat" where
  "component_start 0 data rnd pos = pos"
| "component_start (Suc k) data rnd pos =
     snd (walk_samples (nat (mc_num_walks data)) data rnd (nat (mc_start_idx data) + k)
            (component_start k data rnd pos))"

subsection \<open>Ranges of partial solutions\<close>

text \<open>
  Vocabulary for inputs that partition an index range: a solution covers the indices of
  its closed range, and the ranges of a list of solutions are pairwise disjoint.
\<close>

definition covers :: "PartialSolution \<Rightarrow> int \<Rightarrow> bool" where
  "covers s i \<longleftrightarrow> start_idx s \<le> i \<and> i \<le> end_idx s"

fun disjoint_ranges :: "PartialSolution list \<Rightarrow> bool" where
  "disjoint_ranges [] = True"
| "disjoint_ranges (s # ss) =
     ((\<forall>t\<in>set ss. end_idx s < start_idx t \<or> end_idx t < start_idx s) \<and> disjoint_ranges ss)"

text \<open>
  The invariant of the merge state that keeps every read of \<open>claimed_value\<close> inside the
  vectors: an accepted solution has as many values as its range has indices, and the
  coverage map sends an index only to an accepted solution that covers it.
\<close>

definition coverage_ok :: "merge_state \<Rightarrow> bool" where
  "coverage_ok st \<longleftrightarrow>
     (\<forall>s\<in>set (fst st). int (length (values' s)) = end_idx s - start_idx s + 1) \<and>
     (\<forall>i k. snd st i = Some k \<longrightarrow> k < length (fst st) \<and> covers (fst st ! k) i)"

section \<open>Example inputs\<close>

text \<open>A two by two system used to exercise the definitions: \<open>4x + y = 2\<close>, \<open>x + 4y = 2\<close>.\<close>

definition demo_system :: MonteCarloData where
  "demo_system =
     \<lparr>mc_n = 2, mc_A = (\<lambda>i j. if i = j then 4 else 1), mc_b = (\<lambda>i. 2),
      mc_C = (\<lambda>i j. 0), mc_f = (\<lambda>i. 0), mc_row_sum = (\<lambda>i. 0),
      mc_start_idx = 0, mc_end_idx = 1, mc_num_walks = 2\<rparr>"

text \<open>The iteration form of \<open>demo_system\<close>.\<close>

definition demo_form :: MonteCarloData where
  "demo_form =
     demo_system\<lparr>mc_C := (\<lambda>i j. if i = j then 0 else - 1 / 4), mc_f := (\<lambda>i. 1 / 2),
                  mc_row_sum := (\<lambda>i. 1 / 4)\<rparr>"

text \<open>
  Shorthand for test inputs: an output file with a range and values, and a result whose
  only output file it is.
\<close>

definition file_of :: "int \<Rightarrow> int \<Rightarrow> real list \<Rightarrow> result_file option" where
  "file_of s e vs = Some \<lparr>rf_range = Some (s, e), rf_values = vs\<rparr>"

definition result_of :: "int \<Rightarrow> int \<Rightarrow> int \<Rightarrow> real list \<Rightarrow> RESULT" where
  "result_of i s e vs = \<lparr>res_id = i, res_infos_retval = 0, res_files = [file_of s e vs]\<rparr>"

section \<open>Properties of the solver\<close>

subsection \<open>The iteration form\<close>

lemma prepare_row_A [simp]: "mc_A (prepare_row data i diag j) = mc_A data"
  by (induction data i diag j rule: prepare_row.induct)
     (subst prepare_row.simps, simp add: set_C_def Let_def)

lemma prepare_row_b [simp]: "mc_b (prepare_row data i diag j) = mc_b data"
  by (induction data i diag j rule: prepare_row.induct)
     (subst prepare_row.simps, simp add: set_C_def Let_def)

lemma prepare_row_f [simp]: "mc_f (prepare_row data i diag j) = mc_f data"
  by (induction data i diag j rule: prepare_row.induct)
     (subst prepare_row.simps, simp add: set_C_def Let_def)

lemma prepare_row_C_other:
  "i' \<noteq> i \<Longrightarrow> mc_C (prepare_row data i diag j) i' = mc_C data i'"
  by (induction data i diag j rule: prepare_row.induct)
     (subst prepare_row.simps, simp add: set_C_def Let_def)

lemma prepare_row_row_sum_other:
  "i' \<noteq> i \<Longrightarrow> mc_row_sum (prepare_row data i diag j) i' = mc_row_sum data i'"
  by (induction data i diag j rule: prepare_row.induct)
     (subst prepare_row.simps, simp add: set_C_def Let_def)

lemma prepare_row_C_below:
  "j' < j \<Longrightarrow> mc_C (prepare_row data i diag j) i j' = mc_C data i j'"
  by (induction data i diag j rule: prepare_row.induct)
     (subst prepare_row.simps, simp add: set_C_def Let_def)

lemma prepare_row_C_written:
  "j \<le> j' \<Longrightarrow> j' < mc_n data \<Longrightarrow>
   mc_C (prepare_row data i diag j) i j' = (if i = j' then 0 else - mc_A data i j' / diag)"
proof (induction data i diag j rule: prepare_row.induct)
  case (1 data i diag j)
  show ?case
  proof (cases "j' = j")
    case True
    with "1.prems" show ?thesis
      by (subst prepare_row.simps) (simp add: Let_def prepare_row_C_below set_C_def)
  next
    case False
    with "1.prems" have "j + 1 \<le> j'" "j < mc_n data" by simp_all
    with "1.IH" "1.prems" show ?thesis
      by (subst prepare_row.simps) (simp add: Let_def set_C_def)
  qed
qed

lemma prepare_row_row_sum:
  "mc_row_sum (prepare_row data i diag j) i =
   mc_row_sum data i + (\<Sum>k = j..<mc_n data. \<bar>mc_C (prepare_row data i diag j) i k\<bar>)"
proof (induction data i diag j rule: prepare_row.induct)
  case (1 data i diag j)
  show ?case
  proof (cases "j < mc_n data")
    case False
    then show ?thesis by (subst (1 2) prepare_row.simps) simp
  next
    case True
    define data1 where "data1 = (if i = j then set_C data i j 0
                     else set_C data i j (- mc_A data i j / diag))"
    define data2 where "data2 = data1\<lparr>mc_row_sum :=
                      (mc_row_sum data1)(i := mc_row_sum data1 i + \<bar>mc_C data1 i j\<bar>)\<rparr>"
    have unf: "prepare_row data i diag j = prepare_row data2 i diag (j + 1)"
      using True by (subst prepare_row.simps) (simp add: Let_def data1_def data2_def)
    have n2: "mc_n data2 = mc_n data"
      by (simp add: data2_def data1_def set_C_def)
    have ih: "mc_row_sum (prepare_row data2 i diag (j + 1)) i =
      mc_row_sum data2 i + (\<Sum>k = j + 1..<mc_n data2. \<bar>mc_C (prepare_row data2 i diag (j + 1)) i k\<bar>)"
      using "1.IH" [OF True data1_def data2_def] .
    have cj: "mc_C (prepare_row data2 i diag (j + 1)) i j = mc_C data1 i j"
      by (simp add: prepare_row_C_below data2_def)
    have rs2: "mc_row_sum data2 i = mc_row_sum data i + \<bar>mc_C data1 i j\<bar>"
      by (simp add: data2_def data1_def set_C_def)
    have split: "(\<Sum>k = j..<mc_n data. \<bar>mc_C (prepare_row data2 i diag (j + 1)) i k\<bar>) =
       \<bar>mc_C (prepare_row data2 i diag (j + 1)) i j\<bar> +
       (\<Sum>k = j + 1..<mc_n data. \<bar>mc_C (prepare_row data2 i diag (j + 1)) i k\<bar>)"
      using True by (simp add: sum.atLeast_Suc_lessThan)
    show ?thesis
      unfolding unf using ih split cj rs2 n2 by simp
  qed
qed

text \<open>One pass of the outer loop body on a row with an acceptable diagonal.\<close>

lemma prepare_rows_unfold:
  "i < mc_n data \<Longrightarrow> \<not> \<bar>mc_A data i i\<bar> < 1 / 10 ^ 12 \<Longrightarrow>
   prepare_rows data i =
   prepare_rows (prepare_row (data\<lparr>mc_f := (mc_f data)(i := mc_b data i / mc_A data i i),
                                   mc_row_sum := (mc_row_sum data)(i := 0)\<rparr>)
                   i (mc_A data i i) 0) (i + 1)"
  by (subst prepare_rows.simps) (simp add: Let_def)

lemma prepare_rows_n [simp]: "mc_n (snd (prepare_rows data i)) = mc_n data"
  by (induction data i rule: prepare_rows.induct)
     (subst prepare_rows.simps, simp add: Let_def)

lemma prepare_rows_A [simp]: "mc_A (snd (prepare_rows data i)) = mc_A data"
  by (induction data i rule: prepare_rows.induct)
     (subst prepare_rows.simps, simp add: Let_def)

lemma prepare_rows_b [simp]: "mc_b (snd (prepare_rows data i)) = mc_b data"
  by (induction data i rule: prepare_rows.induct)
     (subst prepare_rows.simps, simp add: Let_def)

lemma prepare_rows_below:
  "k < i \<Longrightarrow>
   mc_f (snd (prepare_rows data i)) k = mc_f data k \<and>
   mc_C (snd (prepare_rows data i)) k = mc_C data k \<and>
   mc_row_sum (snd (prepare_rows data i)) k = mc_row_sum data k"
  by (induction data i rule: prepare_rows.induct)
     (subst (1 2 3) prepare_rows.simps,
      simp add: Let_def prepare_row_C_other prepare_row_row_sum_other)

lemma prepare_rows_code:
  "fst (prepare_rows data i) = 0 \<or> fst (prepare_rows data i) = - 1"
  by (induction data i rule: prepare_rows.induct)
     (subst (1 2) prepare_rows.simps, simp add: Let_def)

lemma prepare_rows_ok_iff:
  "fst (prepare_rows data i) = 0 \<longleftrightarrow>
   (\<forall>k. i \<le> k \<and> k < mc_n data \<longrightarrow> 1 / 10 ^ 12 \<le> \<bar>mc_A data k k\<bar>)"
proof (induction data i rule: prepare_rows.induct)
  case (1 data i)
  show ?case
  proof (cases "i < mc_n data")
    case False
    then show ?thesis by (subst prepare_rows.simps) simp
  next
    case True
    show ?thesis
    proof (cases "\<bar>mc_A data i i\<bar> < 1 / 10 ^ 12")
      case small: True
      have "fst (prepare_rows data i) = - 1"
        using True small by (subst prepare_rows.simps) (simp add: Let_def)
      moreover have "\<not> (\<forall>k. i \<le> k \<and> k < mc_n data \<longrightarrow> 1 / 10 ^ 12 \<le> \<bar>mc_A data k k\<bar>)"
        using True small by (auto simp: not_le intro!: exI [of _ i])
      ultimately show ?thesis by simp
    next
      case ok: False
      define data3 where "data3 =
        prepare_row (data\<lparr>mc_f := (mc_f data)(i := mc_b data i / mc_A data i i),
                          mc_row_sum := (mc_row_sum data)(i := 0)\<rparr>) i (mc_A data i i) 0"
      have unf: "prepare_rows data i = prepare_rows data3 (i + 1)"
        unfolding data3_def using True ok by (rule prepare_rows_unfold)
      have ih: "fst (prepare_rows data3 (i + 1)) = 0 \<longleftrightarrow>
        (\<forall>k. i + 1 \<le> k \<and> k < mc_n data3 \<longrightarrow> 1 / 10 ^ 12 \<le> \<bar>mc_A data3 k k\<bar>)"
        using "1.IH" [OF True refl ok refl refl] unfolding data3_def by simp
      have same: "mc_n data3 = mc_n data" "mc_A data3 = mc_A data"
        by (simp_all add: data3_def)
      have "(\<forall>k. i + 1 \<le> k \<and> k < mc_n data \<longrightarrow> 1 / 10 ^ 12 \<le> \<bar>mc_A data k k\<bar>) \<longleftrightarrow>
            (\<forall>k. i \<le> k \<and> k < mc_n data \<longrightarrow> 1 / 10 ^ 12 \<le> \<bar>mc_A data k k\<bar>)"
      proof
        assume h: "\<forall>k. i + 1 \<le> k \<and> k < mc_n data \<longrightarrow> 1 / 10 ^ 12 \<le> \<bar>mc_A data k k\<bar>"
        show "\<forall>k. i \<le> k \<and> k < mc_n data \<longrightarrow> 1 / 10 ^ 12 \<le> \<bar>mc_A data k k\<bar>"
        proof (intro allI impI)
          fix k assume k: "i \<le> k \<and> k < mc_n data"
          show "1 / 10 ^ 12 \<le> \<bar>mc_A data k k\<bar>"
          proof (cases "k = i")
            case True
            with ok show ?thesis by simp
          next
            case False
            with k h show ?thesis by simp
          qed
        qed
      next
        assume "\<forall>k. i \<le> k \<and> k < mc_n data \<longrightarrow> 1 / 10 ^ 12 \<le> \<bar>mc_A data k k\<bar>"
        then show "\<forall>k. i + 1 \<le> k \<and> k < mc_n data \<longrightarrow> 1 / 10 ^ 12 \<le> \<bar>mc_A data k k\<bar>"
          by simp
      qed
      with ih same unf show ?thesis by simp
    qed
  qed
qed

lemma prepare_rows_row:
  "fst (prepare_rows data i) = 0 \<Longrightarrow> i \<le> k \<Longrightarrow> k < mc_n data \<Longrightarrow>
   mc_f (snd (prepare_rows data i)) k = mc_b data k / mc_A data k k \<and>
   (\<forall>j<mc_n data. mc_C (snd (prepare_rows data i)) k j =
        (if k = j then 0 else - mc_A data k j / mc_A data k k)) \<and>
   mc_row_sum (snd (prepare_rows data i)) k =
     (\<Sum>j<mc_n data. \<bar>mc_C (snd (prepare_rows data i)) k j\<bar>)"
proof (induction data i rule: prepare_rows.induct)
  case (1 data i)
  from "1.prems" have True: "i < mc_n data" by simp
  have ok: "\<not> \<bar>mc_A data i i\<bar> < 1 / 10 ^ 12"
  proof
    assume "\<bar>mc_A data i i\<bar> < 1 / 10 ^ 12"
    with True have "fst (prepare_rows data i) = - 1"
      by (subst prepare_rows.simps) (simp add: Let_def)
    with "1.prems"(1) show False by simp
  qed
  let ?data2 = "data\<lparr>mc_f := (mc_f data)(i := mc_b data i / mc_A data i i),
         mc_row_sum := (mc_row_sum data)(i := 0)\<rparr>"
  let ?data3 = "prepare_row ?data2 i (mc_A data i i) 0"
  have unf: "prepare_rows data i = prepare_rows ?data3 (i + 1)"
    using True ok by (rule prepare_rows_unfold)
  have same: "mc_n ?data3 = mc_n data" "mc_A ?data3 = mc_A data" "mc_b ?data3 = mc_b data"
    by simp_all
  show ?case
  proof (cases "k = i")
    case True
    have below: "mc_f (snd (prepare_rows ?data3 (i + 1))) i = mc_f ?data3 i"
      "mc_C (snd (prepare_rows ?data3 (i + 1))) i = mc_C ?data3 i"
      "mc_row_sum (snd (prepare_rows ?data3 (i + 1))) i = mc_row_sum ?data3 i"
      using prepare_rows_below [of i "i + 1" ?data3] by simp_all
    have f3: "mc_f ?data3 i = mc_b data i / mc_A data i i"
      by simp
    have C3: "\<forall>j<mc_n data. mc_C ?data3 i j = (if i = j then 0 else - mc_A data i j / mc_A data i i)"
    proof (intro allI impI)
      fix j assume "j < mc_n data"
      then have "j < mc_n ?data2" by simp
      from prepare_row_C_written [OF _ this, of 0 i "mc_A data i i"]
      show "mc_C ?data3 i j = (if i = j then 0 else - mc_A data i j / mc_A data i i)"
        by simp
    qed
    have rs3: "mc_row_sum ?data3 i = (\<Sum>j<mc_n data. \<bar>mc_C ?data3 i j\<bar>)"
      using prepare_row_row_sum [of ?data2 i "mc_A data i i" 0]
      by (simp add: atLeast0LessThan)
    show ?thesis
      unfolding unf True below f3 rs3 using C3 by simp
  next
    case False
    with "1.prems" have k: "i + 1 \<le> k" "k < mc_n ?data3" by simp_all
    have fst3: "fst (prepare_rows ?data3 (i + 1)) = 0"
      using "1.prems"(1) unf by simp
    have "mc_f (snd (prepare_rows ?data3 (i + 1))) k = mc_b ?data3 k / mc_A ?data3 k k \<and>
      (\<forall>j<mc_n ?data3. mc_C (snd (prepare_rows ?data3 (i + 1))) k j =
        (if k = j then 0 else - mc_A ?data3 k j / mc_A ?data3 k k)) \<and>
      mc_row_sum (snd (prepare_rows ?data3 (i + 1))) k =
        (\<Sum>j<mc_n ?data3. \<bar>mc_C (snd (prepare_rows ?data3 (i + 1))) k j\<bar>)"
      using "1.IH" [OF True refl ok refl refl refl] fst3 k by simp
    then show ?thesis
      unfolding unf same .
  qed
qed

subsection \<open>The walk\<close>

lemma walk_loop_contribs:
  "ws_contribs (walk_loop data rnd step st) \<le> ws_contribs st + (MAX_STEPS - step)"
proof (induction data rnd step st rule: walk_loop.induct)
  case (1 data rnd step st)
  show ?case
  proof (cases "step < MAX_STEPS")
    case False
    then show ?thesis by (subst walk_loop.simps) simp
  next
    case True
    show ?thesis
      using True "1.IH" [OF True refl refl refl _ _ refl refl refl]
      by (subst walk_loop.simps) (auto simp: Let_def)
  qed
qed

lemma walk_loop_pos:
  "ws_pos st \<le> ws_pos (walk_loop data rnd step st) \<and>
   ws_pos (walk_loop data rnd step st) \<le> ws_pos st + 2 * (MAX_STEPS - step)"
proof (induction data rnd step st rule: walk_loop.induct)
  case (1 data rnd step st)
  show ?case
  proof (cases "step < MAX_STEPS")
    case False
    then show ?thesis by (subst (1 2) walk_loop.simps) simp
  next
    case True
    show ?thesis
      using True "1.IH" [OF True refl refl refl _ _ refl refl refl]
      by (subst (1 2) walk_loop.simps) (auto simp: Let_def rand_double_def)
  qed
qed

lemma select_next_find:
  "cumsum = (\<Sum>k<j. \<bar>mc_C data i k\<bar>) \<Longrightarrow>
   select_next data i r j cumsum w =
     (case List.find (\<lambda>j. r \<le> (\<Sum>k\<le>j. \<bar>mc_C data i k\<bar>)) [j..<mc_n data] of
        Some j' \<Rightarrow> (j', w * (spec_sign (mc_C data i j') * mc_row_sum data i / (1 - 1 / 10)))
      | None \<Rightarrow> (i, w))"
proof (induction data i r j cumsum w rule: select_next.induct)
  case (1 data i r j cumsum w)
  show ?case
  proof (cases "j < mc_n data")
    case False
    then show ?thesis by (subst select_next.simps) simp
  next
    case True
    have pre: "cumsum + \<bar>mc_C data i j\<bar> = (\<Sum>k\<le>j. \<bar>mc_C data i k\<bar>)"
      using "1.prems" by (simp add: lessThan_Suc_atMost [symmetric])
    have upt: "[j..<mc_n data] = j # [j + 1..<mc_n data]"
      using True by (simp add: upt_conv_Cons)
    show ?thesis
    proof (cases "r \<le> cumsum + \<bar>mc_C data i j\<bar>")
      case hit: True
      then show ?thesis
        using True pre
        by (subst select_next.simps)
           (simp add: upt Let_def spec_sign_def TERMINATION_PROB_def)
    next
      case miss: False
      have "cumsum + \<bar>mc_C data i j\<bar> = (\<Sum>k<j + 1. \<bar>mc_C data i k\<bar>)"
        using pre by (simp add: lessThan_Suc_atMost)
      from "1.IH" [OF True refl miss this] show ?thesis
        using True miss pre
        by (subst select_next.simps) (simp add: upt Let_def)
    qed
  qed
qed

lemma select_next_inversion:
  "select_next data i r 0 0 w =
     (case spec_inversion data i r of
        Some j' \<Rightarrow> (j', w * (spec_sign (mc_C data i j') * mc_row_sum data i / (1 - 1 / 10)))
      | None \<Rightarrow> (i, w))"
  unfolding spec_inversion_def by (rule select_next_find) simp

lemma walk_loop_spec:
  "step \<le> MAX_STEPS \<Longrightarrow>
   (ws_sum (walk_loop data rnd step st), ws_pos (walk_loop data rnd step st)) =
   spec_walk (MAX_STEPS - step) data rnd (ws_current_state st) (ws_weight st)
     (ws_sum st) (ws_pos st)"
proof (induction data rnd step st rule: walk_loop.induct)
  case (1 data rnd step st)
  show ?case
  proof (cases "step < MAX_STEPS")
    case False
    with "1.prems" have "MAX_STEPS - step = 0" by simp
    with False show ?thesis by (subst (1 2) walk_loop.simps) simp
  next
    case True
    then have suc: "MAX_STEPS - step = Suc (MAX_STEPS - (step + 1))" by simp
    from True have le: "step + 1 \<le> MAX_STEPS" by simp
    show ?thesis
      unfolding suc
      using True "1.IH" [OF True refl refl refl _ _ refl refl refl le]
      by (subst (1 2) walk_loop.simps)
         (auto simp: Let_def uniform_def TERMINATION_PROB_def select_next_inversion
               rand_double_def split: option.splits)
  qed
qed

text \<open>
  The inversion finds a state whenever the scaled draw does not exceed the sum of the
  magnitudes of the row, as it cannot for a draw below 1 and a \<open>row_sum\<close> that
  \<open>prepare_iteration_form\<close> computed.
\<close>

lemma spec_inversion_defined:
  assumes "0 < mc_n data" and "r \<le> (\<Sum>k<mc_n data. \<bar>mc_C data i k\<bar>)"
  shows "\<exists>j<mc_n data. spec_inversion data i r = Some j \<and>
     r \<le> (\<Sum>k\<le>j. \<bar>mc_C data i k\<bar>) \<and> (\<forall>j'<j. \<not> r \<le> (\<Sum>k\<le>j'. \<bar>mc_C data i k\<bar>))"
proof -
  let ?P = "\<lambda>j. r \<le> (\<Sum>k\<le>j. \<bar>mc_C data i k\<bar>)"
  from assms(1) have last: "{..mc_n data - 1} = {..<mc_n data}" by auto
  with assms have "?P (mc_n data - 1)" by simp
  moreover from assms(1) have "mc_n data - 1 \<in> set [0..<mc_n data]" by simp
  ultimately have "List.find ?P [0..<mc_n data] \<noteq> None"
    unfolding find_None_iff by blast
  then obtain j where j: "List.find ?P [0..<mc_n data] = Some j" by blast
  then obtain a where a: "a < length [0..<mc_n data]" "?P ([0..<mc_n data] ! a)"
    "j = [0..<mc_n data] ! a" "\<forall>b<a. \<not> ?P ([0..<mc_n data] ! b)"
    unfolding find_Some_iff by blast
  from a(1) have lt: "a < mc_n data" by simp
  then have ja: "j = a" using a(3) by simp
  have "\<forall>j'<j. \<not> ?P j'"
  proof (intro allI impI)
    fix j' assume "j' < j"
    with ja lt a(4) have "\<not> ?P ([0..<mc_n data] ! j')" "j' < mc_n data" by simp_all
    then show "\<not> ?P j'" by simp
  qed
  moreover from a(2) lt ja have "?P j" by simp
  ultimately show ?thesis
    using j lt ja unfolding spec_inversion_def by blast
qed

lemma random_walk_first_draw_zero:
  "rnd pos = 0 \<Longrightarrow> random_walk data rnd i pos = (mc_f data i, pos + 1)"
  by (simp add: random_walk_def walk_init_def Let_def MAX_STEPS_def rand_double_def
        TERMINATION_PROB_def walk_loop.simps [of data rnd 0])

subsection \<open>The loops of compute_solution\<close>

lemma walk_samples_length: "length (fst (walk_samples m data rnd i pos)) = m"
  by (induction m arbitrary: pos) (simp_all add: Let_def)

lemma walks_loop_samples:
  "0 \<le> i \<Longrightarrow> i < int MAX_DIM \<Longrightarrow> walk \<le> mc_num_walks data \<Longrightarrow>
   walks_loop data rnd i walk acc pos =
   Inr (acc + sum_list (fst (walk_samples (nat (mc_num_walks data - walk)) data rnd (nat i) pos)),
        snd (walk_samples (nat (mc_num_walks data - walk)) data rnd (nat i) pos))"
proof (induction data rnd i walk acc pos rule: walks_loop.induct)
  case (1 data rnd i walk acc pos)
  show ?case
  proof (cases "walk < mc_num_walks data")
    case False
    with "1.prems" have "mc_num_walks data - walk = 0" by simp
    with False show ?thesis by (subst walks_loop.simps) simp
  next
    case True
    then have suc: "nat (mc_num_walks data - walk) = Suc (nat (mc_num_walks data - (walk + 1)))"
      by simp
    have nb: "\<not> (i < 0 \<or> int MAX_DIM \<le> i)" using "1.prems" by simp
    from True have le: "walk + 1 \<le> mc_num_walks data" by simp
    show ?thesis
      unfolding suc
      using True nb "1.IH" [OF True nb refl "1.prems"(1,2) le]
      by (subst walks_loop.simps) (simp add: Let_def)
  qed
qed

lemma components_loop_estimates:
  assumes "0 \<le> mc_start_idx data" "mc_start_idx data + num_components \<le> int MAX_DIM"
    "0 \<le> mc_num_walks data" "0 \<le> idx" "idx \<le> num_components"
    "pos = component_start (nat idx) data rnd pos0"
  shows "\<exists>x' pos'. components_loop data rnd num_components idx x_partial pos = Inr (x', pos') \<and>
     (\<forall>k. nat idx \<le> k \<and> k < nat num_components \<longrightarrow>
        x' k = spec_estimate data rnd (nat (mc_start_idx data) + k) (component_start k data rnd pos0)) \<and>
     (\<forall>k. k < nat idx \<or> nat num_components \<le> k \<longrightarrow> x' k = x_partial k) \<and>
     pos' = component_start (nat num_components) data rnd pos0"
  using assms
proof (induction data rnd num_components idx x_partial pos rule: components_loop.induct)
  case (1 data rnd num_components idx x_partial pos)
  show ?case
  proof (cases "idx < num_components")
    case False
    with "1.prems" have "idx = num_components" by simp
    with "1.prems" show ?thesis
      by (subst components_loop.simps) simp
  next
    case True
    let ?i = "mc_start_idx data + idx"
    have irange: "0 \<le> ?i" "?i < int MAX_DIM"
      using True "1.prems" by simp_all
    then have iok: "\<not> \<not> int_ok ?i"
      by (simp add: int_ok_def INT_MIN_def INT_MAX_def MAX_DIM_def)
    let ?samples = "walk_samples (nat (mc_num_walks data)) data rnd (nat ?i) pos"
    let ?walked = "(sum_list (fst ?samples), snd ?samples)"
    have walks: "walks_loop data rnd ?i 0 0 pos = Inr ?walked"
      using walks_loop_samples [OF irange, of 0 data rnd 0 pos] "1.prems"(3) by simp
    have idxok: "\<not> (idx < 0 \<or> int MAX_DIM \<le> idx)"
      using irange "1.prems" by simp
    let ?x1 = "x_partial(nat idx := fst ?walked / real_of_int (mc_num_walks data))"
    have nati: "nat ?i = nat (mc_start_idx data) + nat idx"
      using "1.prems" by (simp add: nat_add_distrib)
    have pos1: "snd ?walked = component_start (nat (idx + 1)) data rnd pos0"
      using "1.prems" by (simp add: nat_add_distrib nati)
    have unf: "components_loop data rnd num_components idx x_partial pos =
               components_loop data rnd num_components (idx + 1) ?x1 (snd ?walked)"
      using True iok walks idxok
      by (subst components_loop.simps) (simp add: Let_def)
    have next_idx: "0 \<le> idx + 1" "idx + 1 \<le> num_components"
      using True "1.prems" by simp_all
    from "1.IH" [OF True refl iok walks idxok "1.prems"(1,2,3) next_idx pos1]
    obtain x' pos' where
      run: "components_loop data rnd num_components (idx + 1) ?x1 (snd ?walked) = Inr (x', pos')" and
      upper: "\<forall>k. nat (idx + 1) \<le> k \<and> k < nat num_components \<longrightarrow>
        x' k = spec_estimate data rnd (nat (mc_start_idx data) + k) (component_start k data rnd pos0)" and
      lower: "\<forall>k. k < nat (idx + 1) \<or> nat num_components \<le> k \<longrightarrow> x' k = ?x1 k" and
      fin: "pos' = component_start (nat num_components) data rnd pos0"
      by blast
    have here: "x' (nat idx) =
       spec_estimate data rnd (nat (mc_start_idx data) + nat idx)
         (component_start (nat idx) data rnd pos0)"
      using lower "1.prems" by (simp add: spec_estimate_def nati)
    have "\<forall>k. nat idx \<le> k \<and> k < nat num_components \<longrightarrow>
        x' k = spec_estimate data rnd (nat (mc_start_idx data) + k) (component_start k data rnd pos0)"
    proof (intro allI impI)
      fix k assume k: "nat idx \<le> k \<and> k < nat num_components"
      show "x' k = spec_estimate data rnd (nat (mc_start_idx data) + k) (component_start k data rnd pos0)"
      proof (cases "k = nat idx")
        case True
        with here show ?thesis by simp
      next
        case False
        with k "1.prems" have "nat (idx + 1) \<le> k" by arith
        with upper k show ?thesis by simp
      qed
    qed
    moreover have "\<forall>k. k < nat idx \<or> nat num_components \<le> k \<longrightarrow> x' k = x_partial k"
    proof (intro allI impI)
      fix k assume k: "k < nat idx \<or> nat num_components \<le> k"
      with True "1.prems" have "k \<noteq> nat idx" "k < nat (idx + 1) \<or> nat num_components \<le> k"
        by arith+
      with lower have "x' k = ?x1 k" by blast
      with \<open>k \<noteq> nat idx\<close> show "x' k = x_partial k" by simp
    qed
    ultimately show ?thesis
      unfolding unf using run fin by simp
  qed
qed

section \<open>Properties of the validator\<close>

subsection \<open>The overlap and marking loops\<close>

lemma mark_covered_result:
  "end_idx sol < INT_MAX \<or> end_idx sol < idx \<Longrightarrow>
   mark_covered cov sol k idx =
     Inr (\<lambda>i. if idx \<le> i \<and> i \<le> end_idx sol then Some k else cov i)"
proof (induction cov sol k idx rule: mark_covered.induct)
  case (1 cov sol k idx)
  show ?case
  proof (cases "idx \<le> end_idx sol")
    case False
    then have "(\<lambda>i. if idx \<le> i \<and> i \<le> end_idx sol then Some k else cov i) = cov"
      by (intro ext) auto
    with False show ?thesis by (subst mark_covered.simps) simp
  next
    case True
    with "1.prems" have ne: "idx \<noteq> INT_MAX" and small: "end_idx sol < INT_MAX \<or> end_idx sol < idx + 1"
      by auto
    have eq: "(\<lambda>i. if idx + 1 \<le> i \<and> i \<le> end_idx sol then Some k else (cov(idx \<mapsto> k)) i) =
          (\<lambda>i. if idx \<le> i \<and> i \<le> end_idx sol then Some k else cov i)"
      using True by (auto simp: fun_eq_iff)
    have unf: "mark_covered cov sol k idx = mark_covered (cov(idx \<mapsto> k)) sol k (idx + 1)"
      using True ne by (subst mark_covered.simps) simp
    show ?thesis
      unfolding unf "1.IH" [OF True ne small] eq ..
  qed
qed


lemma check_overlap_clear:
  "\<forall>i. idx \<le> i \<and> i \<le> end_idx sol \<longrightarrow> \<not> conflict_at solutions cov sol i \<Longrightarrow>
   end_idx sol < INT_MAX \<or> end_idx sol < idx \<Longrightarrow>
   check_overlap solutions cov sol idx = Inr True"
proof (induction solutions cov sol idx rule: check_overlap.induct)
  case (1 solutions cov sol idx)
  show ?case
  proof (cases "idx \<le> end_idx sol")
    case False
    then show ?thesis by (subst check_overlap.simps) simp
  next
    case True
    with "1.prems" have nc: "\<not> conflict_at solutions cov sol idx" by simp
    from True "1.prems" have ne: "idx \<noteq> INT_MAX"
      and small: "end_idx sol < INT_MAX \<or> end_idx sol < idx + 1" by auto
    have rest: "\<forall>i. idx + 1 \<le> i \<and> i \<le> end_idx sol \<longrightarrow> \<not> conflict_at solutions cov sol i"
      using "1.prems"(1) by simp
    from "1.IH" [OF True nc ne rest small] True nc ne show ?thesis
      by (subst check_overlap.simps) simp
  qed
qed

lemma check_overlap_valid:
  "check_overlap solutions cov sol idx = Inr True \<Longrightarrow>
   (\<forall>i. idx \<le> i \<and> i \<le> end_idx sol \<longrightarrow> \<not> conflict_at solutions cov sol i) \<and>
   (idx \<le> end_idx sol \<longrightarrow> end_idx sol \<noteq> INT_MAX)"
proof (induction solutions cov sol idx rule: check_overlap.induct)
  case (1 solutions cov sol idx)
  show ?case
  proof (cases "idx \<le> end_idx sol")
    case False
    then show ?thesis by auto
  next
    case True
    have nc: "\<not> conflict_at solutions cov sol idx"
    proof
      assume "conflict_at solutions cov sol idx"
      with True have "check_overlap solutions cov sol idx = Inr False"
        by (subst check_overlap.simps) simp
      with "1.prems" show False by simp
    qed
    have ne: "idx \<noteq> INT_MAX"
    proof
      assume "idx = INT_MAX"
      with True nc have "check_overlap solutions cov sol idx = Inl SignedOverflow"
        by (subst check_overlap.simps) simp
      with "1.prems" show False by simp
    qed
    have "check_overlap solutions cov sol (idx + 1) = Inr True"
      using "1.prems" True nc ne by (subst (asm) check_overlap.simps) simp
    from "1.IH" [OF True nc ne this]
    have rest: "\<forall>i. idx + 1 \<le> i \<and> i \<le> end_idx sol \<longrightarrow> \<not> conflict_at solutions cov sol i"
      and fin: "idx + 1 \<le> end_idx sol \<longrightarrow> end_idx sol \<noteq> INT_MAX"
      by simp_all
    have "\<forall>i. idx \<le> i \<and> i \<le> end_idx sol \<longrightarrow> \<not> conflict_at solutions cov sol i"
    proof (intro allI impI)
      fix i assume i: "idx \<le> i \<and> i \<le> end_idx sol"
      show "\<not> conflict_at solutions cov sol i"
      proof (cases "i = idx")
        case True
        with nc show ?thesis by simp
      next
        case False
        with i have "idx + 1 \<le> i \<and> i \<le> end_idx sol" by simp
        with rest show ?thesis by blast
      qed
    qed
    moreover have "end_idx sol \<noteq> INT_MAX"
    proof (cases "idx + 1 \<le> end_idx sol")
      case True
      with fin show ?thesis by simp
    next
      case False
      with \<open>idx \<le> end_idx sol\<close> have "end_idx sol = idx" by simp
      with ne show ?thesis by simp
    qed
    ultimately show ?thesis by simp
  qed
qed

lemma result_solution_wf:
  "result_solution r = Inr (Some sol) \<Longrightarrow>
   int_ok (start_idx sol) \<and> int_ok (end_idx sol) \<and> start_idx sol \<le> end_idx sol + 1 \<and>
   int (length (values' sol)) = end_idx sol - start_idx sol + 1"
  by (auto simp: result_solution_def parse_result_def Let_def
           split: if_splits list.splits option.splits)

lemma result_solution_result_of:
  assumes "int_ok s" "int_ok e" "int_ok (e - s)" "int_ok (e - s + 1)"
    and len: "int (length vs) = e - s + 1"
  shows "result_solution (result_of i s e vs) =
     Inr (Some \<lparr>start_idx = s, end_idx = e, values' = vs\<rparr>)"
proof -
  from len have "\<not> e - s + 1 < 0" "\<not> length vs < nat (e - s + 1)"
    "take (nat (e - s + 1)) vs = vs"
    by simp_all
  with assms(1-4) show ?thesis
    by (simp add: result_solution_def result_of_def file_of_def parse_result_def Let_def)
qed

subsection \<open>One result at a time\<close>

lemma merge_step_accept:
  assumes "result_solution r = Inr (Some sol)"
    and "check_overlap solutions cov sol (start_idx sol) = Inr True"
  shows "merge_step r (solutions, cov) =
     Inr (solutions @ [sol],
          \<lambda>i. if start_idx sol \<le> i \<and> i \<le> end_idx sol then Some (length solutions) else cov i)"
proof -
  from result_solution_wf [OF assms(1)] have "int_ok (start_idx sol)" by simp
  then have "start_idx sol \<le> INT_MAX" by (simp add: int_ok_def)
  moreover from check_overlap_valid [OF assms(2)]
  have "start_idx sol \<le> end_idx sol \<longrightarrow> end_idx sol \<noteq> INT_MAX" by simp
  moreover from result_solution_wf [OF assms(1)] have "end_idx sol \<le> INT_MAX"
    by (simp add: int_ok_def)
  ultimately have "end_idx sol < INT_MAX \<or> end_idx sol < start_idx sol" by arith
  from mark_covered_result [OF this, of cov "length solutions"] assms show ?thesis
    by (simp add: merge_step_def)
qed


lemma merge_step_skip:
  "result_solution r = Inr None \<Longrightarrow> merge_step r st = Inr st"
  by (simp add: merge_step_def)

lemma merge_step_cases:
  assumes "merge_step r (solutions, cov) = Inr (solutions', cov')"
  shows "(solutions' = solutions \<and> cov' = cov) \<or>
     (\<exists>sol. result_solution r = Inr (Some sol) \<and>
        check_overlap solutions cov sol (start_idx sol) = Inr True \<and>
        solutions' = solutions @ [sol] \<and>
        cov' = (\<lambda>i. if start_idx sol \<le> i \<and> i \<le> end_idx sol
                     then Some (length solutions) else cov i))"
proof (cases "result_solution r")
  case (Inl e)
  with assms show ?thesis by (simp add: merge_step_def)
next
  case (Inr parsed)
  show ?thesis
  proof (cases parsed)
    case None
    with Inr assms show ?thesis by (simp add: merge_step_def)
  next
    case (Some sol)
    show ?thesis
    proof (cases "check_overlap solutions cov sol (start_idx sol)")
      case (Inl e)
      with Inr Some assms show ?thesis by (simp add: merge_step_def)
    next
      case valid: (Inr valid)
      show ?thesis
      proof (cases valid)
        case False
        with Inr Some valid assms show ?thesis by (simp add: merge_step_def)
      next
        case True
        from Inr Some have p: "result_solution r = Inr (Some sol)" by simp
        from valid True have c: "check_overlap solutions cov sol (start_idx sol) = Inr True"
          by simp
        from merge_step_accept [OF p c] assms p c show ?thesis by auto
      qed
    qed
  qed
qed

lemma accepted_end_below_max:
  assumes "result_solution r = Inr (Some sol)"
    and "check_overlap solutions cov sol (start_idx sol) = Inr True"
  shows "end_idx sol < INT_MAX"
proof -
  from result_solution_wf [OF assms(1)]
  have "start_idx sol \<le> INT_MAX" "end_idx sol \<le> INT_MAX" by (simp_all add: int_ok_def)
  moreover from check_overlap_valid [OF assms(2)]
  have "start_idx sol \<le> end_idx sol \<longrightarrow> end_idx sol \<noteq> INT_MAX" by simp
  ultimately show ?thesis by arith
qed

lemma merge_results_ends:
  "merge_results rs (solutions, cov) = Inr (solutions', cov') \<Longrightarrow>
   \<forall>s\<in>set solutions. end_idx s < INT_MAX \<Longrightarrow>
   \<forall>s\<in>set solutions'. end_idx s < INT_MAX"
proof (induction rs arbitrary: solutions cov)
  case Nil
  then show ?case by simp
next
  case (Cons r rs)
  from Cons.prems(1) obtain solutions1 cov1 where
    step: "merge_step r (solutions, cov) = Inr (solutions1, cov1)" and
    rest: "merge_results rs (solutions1, cov1) = Inr (solutions', cov')"
    by (auto split: sum.splits)
  from merge_step_cases [OF step] Cons.prems(2)
  have "\<forall>s\<in>set solutions1. end_idx s < INT_MAX"
    by (auto dest: accepted_end_below_max)
  from Cons.IH [OF rest this] show ?case .
qed

lemma coverage_ok_initial: "coverage_ok ([], Map.empty)"
  by (simp add: coverage_ok_def)

lemma merge_step_coverage_ok:
  assumes "merge_step r st = Inr st'" and "coverage_ok st"
  shows "coverage_ok st'"
proof -
  obtain solutions cov solutions' cov' where
    st: "st = (solutions, cov)" and st': "st' = (solutions', cov')"
    by (cases st, cases st') auto
  from merge_step_cases [OF assms(1) [unfolded st st']]
  show ?thesis
  proof
    assume "solutions' = solutions \<and> cov' = cov"
    with assms(2) st st' show ?thesis by simp
  next
    assume "\<exists>sol. result_solution r = Inr (Some sol) \<and>
        check_overlap solutions cov sol (start_idx sol) = Inr True \<and>
        solutions' = solutions @ [sol] \<and>
        cov' = (\<lambda>i. if start_idx sol \<le> i \<and> i \<le> end_idx sol
                     then Some (length solutions) else cov i)"
    then obtain sol where
      parsed: "result_solution r = Inr (Some sol)" and
      sols: "solutions' = solutions @ [sol]" and
      cov: "cov' = (\<lambda>i. if start_idx sol \<le> i \<and> i \<le> end_idx sol
                     then Some (length solutions) else cov i)"
      by blast
    from result_solution_wf [OF parsed]
    have len: "int (length (values' sol)) = end_idx sol - start_idx sol + 1" by simp
    from assms(2) st have
      old_len: "\<forall>s\<in>set solutions. int (length (values' s)) = end_idx s - start_idx s + 1" and
      old_cov: "\<forall>i k. cov i = Some k \<longrightarrow> k < length solutions \<and> covers (solutions ! k) i"
      by (simp_all add: coverage_ok_def)
    have "\<forall>s\<in>set solutions'. int (length (values' s)) = end_idx s - start_idx s + 1"
      using old_len len sols by auto
    moreover have "\<forall>i k. cov' i = Some k \<longrightarrow> k < length solutions' \<and> covers (solutions' ! k) i"
    proof (intro allI impI)
      fix i k assume c: "cov' i = Some k"
      show "k < length solutions' \<and> covers (solutions' ! k) i"
      proof (cases "start_idx sol \<le> i \<and> i \<le> end_idx sol")
        case True
        with c cov have "k = length solutions" by simp
        with True sols show ?thesis by (simp add: covers_def)
      next
        case False
        with c cov have "cov i = Some k" by simp
        with old_cov have "k < length solutions" "covers (solutions ! k) i" by simp_all
        with sols show ?thesis by (simp add: nth_append)
      qed
    qed
    ultimately show ?thesis by (simp add: coverage_ok_def st')
  qed
qed

lemma merge_results_coverage_ok:
  "merge_results rs st = Inr st' \<Longrightarrow> coverage_ok st \<Longrightarrow> coverage_ok st'"
proof (induction rs arbitrary: st)
  case Nil
  then show ?case by simp
next
  case (Cons r rs)
  from Cons.prems(1) obtain st1 where
    step: "merge_step r st = Inr st1" and rest: "merge_results rs st1 = Inr st'"
    by (auto split: sum.splits)
  from Cons.IH [OF rest merge_step_coverage_ok [OF step Cons.prems(2)]] show ?case .
qed

lemma claimed_value_in_bounds:
  assumes "merge_results results ([], Map.empty) = Inr (solutions, cov)"
    and "cov i = Some k"
  shows "k < length solutions \<and>
     0 \<le> i - start_idx (solutions ! k) \<and>
     nat (i - start_idx (solutions ! k)) < length (values' (solutions ! k))"
proof -
  from merge_results_coverage_ok [OF assms(1) coverage_ok_initial]
  have ok: "coverage_ok (solutions, cov)" .
  with assms(2) have k: "k < length solutions" and c: "covers (solutions ! k) i"
    by (simp_all add: coverage_ok_def)
  from ok k have "int (length (values' (solutions ! k))) =
      end_idx (solutions ! k) - start_idx (solutions ! k) + 1"
    by (simp add: coverage_ok_def)
  with c k show ?thesis by (simp add: covers_def) arith
qed

lemma merge_results_disjoint:
  assumes "map result_solution rs = map (\<lambda>s. Inr (Some s)) sols"
    and "\<forall>s\<in>set sols. start_idx s \<le> end_idx s \<and> end_idx s < INT_MAX"
    and "\<forall>s\<in>set sols. \<forall>i. covers s i \<longrightarrow> cov i = None"
    and "disjoint_ranges sols"
  shows "\<exists>cov'. merge_results rs (solutions, cov) = Inr (solutions @ sols, cov') \<and>
     (\<forall>k<length sols. \<forall>i. covers (sols ! k) i \<longrightarrow> cov' i = Some (length solutions + k)) \<and>
     (\<forall>i. (\<forall>s\<in>set sols. \<not> covers s i) \<longrightarrow> cov' i = cov i)"
  using assms
proof (induction sols arbitrary: rs solutions cov)
  case Nil
  then show ?case by simp
next
  case (Cons s sols)
  from Cons.prems(1) obtain r rs' where
    rs: "rs = r # rs'" and
    parsed: "result_solution r = Inr (Some s)" and
    rest: "map result_solution rs' = map (\<lambda>s. Inr (Some s)) sols"
    by (auto simp: map_eq_Cons_conv)
  let ?cov1 = "\<lambda>i. if start_idx s \<le> i \<and> i \<le> end_idx s then Some (length solutions) else cov i"
  have "\<forall>i. start_idx s \<le> i \<and> i \<le> end_idx s \<longrightarrow> \<not> conflict_at solutions cov s i"
    using Cons.prems(3) by (simp add: conflict_at_def claimed_value_def covers_def)
  moreover have "end_idx s < INT_MAX \<or> end_idx s < start_idx s"
    using Cons.prems(2) by simp
  ultimately have "check_overlap solutions cov s (start_idx s) = Inr True"
    by (rule check_overlap_clear)
  from merge_step_accept [OF parsed this]
  have step: "merge_step r (solutions, cov) = Inr (solutions @ [s], ?cov1)" .
  have sep: "\<forall>t\<in>set sols. \<forall>i. covers t i \<longrightarrow> \<not> covers s i"
    using Cons.prems(4) by (auto simp: covers_def)
  have p2: "\<forall>t\<in>set sols. start_idx t \<le> end_idx t \<and> end_idx t < INT_MAX"
    using Cons.prems(2) by simp
  have p3: "\<forall>t\<in>set sols. \<forall>i. covers t i \<longrightarrow> ?cov1 i = None"
  proof (intro ballI allI impI)
    fix t i assume t: "t \<in> set sols" and c: "covers t i"
    with sep have "\<not> covers s i" by blast
    moreover from t c Cons.prems(3) have "cov i = None" by simp
    ultimately show "?cov1 i = None" by (simp add: covers_def)
  qed
  have p4: "disjoint_ranges sols" using Cons.prems(4) by simp
  from Cons.IH [OF rest p2 p3 p4, of "solutions @ [s]"]
  obtain cov' where
    run: "merge_results rs' (solutions @ [s], ?cov1) = Inr ((solutions @ [s]) @ sols, cov')" and
    inside: "\<forall>k<length sols. \<forall>i. covers (sols ! k) i \<longrightarrow>
               cov' i = Some (length (solutions @ [s]) + k)" and
    outside: "\<forall>i. (\<forall>t\<in>set sols. \<not> covers t i) \<longrightarrow> cov' i = ?cov1 i"
    by blast
  have "merge_results rs (solutions, cov) = Inr (solutions @ s # sols, cov')"
    using rs step run by simp
  moreover have "\<forall>k<length (s # sols). \<forall>i. covers ((s # sols) ! k) i \<longrightarrow>
      cov' i = Some (length solutions + k)"
  proof (intro allI impI)
    fix k i assume k: "k < length (s # sols)" and c: "covers ((s # sols) ! k) i"
    show "cov' i = Some (length solutions + k)"
    proof (cases k)
      case 0
      with c have cs: "covers s i" by simp
      with sep have "\<forall>t\<in>set sols. \<not> covers t i" by blast
      with outside have "cov' i = ?cov1 i" by blast
      with cs 0 show ?thesis by (simp add: covers_def)
    next
      case (Suc k')
      with k c have "k' < length sols" "covers (sols ! k') i" by simp_all
      with inside have "cov' i = Some (length (solutions @ [s]) + k')" by blast
      with Suc show ?thesis by simp
    qed
  qed
  moreover have "\<forall>i. (\<forall>t\<in>set (s # sols). \<not> covers t i) \<longrightarrow> cov' i = cov i"
  proof (intro allI impI)
    fix i assume a: "\<forall>t\<in>set (s # sols). \<not> covers t i"
    then have "\<forall>t\<in>set sols. \<not> covers t i" and ns: "\<not> covers s i" by simp_all
    with outside have "cov' i = ?cov1 i" by blast
    with ns show "cov' i = cov i" by (auto simp: covers_def)
  qed
  ultimately show ?case by blast
qed

subsection \<open>Completeness and credit\<close>

lemma max_idx_loop_ge:
  "m \<le> max_idx_loop sols m \<and> (\<forall>s\<in>set sols. end_idx s \<le> max_idx_loop sols m)"
proof (induction sols arbitrary: m)
  case Nil
  show ?case by simp
next
  case (Cons s sols)
  from Cons.IH [of "if end_idx s > m then end_idx s else m"]
  show ?case by (auto split: if_splits)
qed

lemma max_idx_loop_in:
  "max_idx_loop sols m = m \<or> max_idx_loop sols m \<in> end_idx ` set sols"
proof (induction sols arbitrary: m)
  case Nil
  show ?case by simp
next
  case (Cons s sols)
  from Cons.IH [of "if end_idx s > m then end_idx s else m"]
  show ?case by (auto split: if_splits)
qed

lemma max_idx_loop_Max:
  "sols \<noteq> [] \<Longrightarrow> max_idx_loop sols 0 = max 0 (Max (end_idx ` set sols))"
proof -
  assume ne: "sols \<noteq> []"
  let ?E = "end_idx ` set sols"
  have fin: "finite ?E" "?E \<noteq> {}" using ne by simp_all
  have ge: "0 \<le> max_idx_loop sols 0" "\<forall>e\<in>?E. e \<le> max_idx_loop sols 0"
    using max_idx_loop_ge [of 0 sols] by auto
  then have "Max ?E \<le> max_idx_loop sols 0" using fin by simp
  with ge have up: "max 0 (Max ?E) \<le> max_idx_loop sols 0" by simp
  from max_idx_loop_in [of sols 0] have "max_idx_loop sols 0 \<le> max 0 (Max ?E)"
  proof
    assume "max_idx_loop sols 0 = 0" then show ?thesis by simp
  next
    assume "max_idx_loop sols 0 \<in> ?E"
    then have "max_idx_loop sols 0 \<le> Max ?E" using fin by simp
    then show ?thesis by simp
  qed
  with up show ?thesis by (rule order_antisym [rotated])
qed

lemma complete_loop_result:
  "max_idx < INT_MAX \<Longrightarrow>
   complete_loop cov max_idx idx c =
     Inr (c \<and> (\<forall>i. idx \<le> i \<and> i \<le> max_idx \<longrightarrow> cov i \<noteq> None))"
proof (induction cov max_idx idx c rule: complete_loop.induct)
  case (1 cov max_idx idx c)
  show ?case
  proof (cases "idx \<le> max_idx")
    case False
    then show ?thesis by (subst complete_loop.simps) auto
  next
    case True
    with "1.prems" have ne: "idx \<noteq> INT_MAX" by simp
    have unf: "complete_loop cov max_idx idx c =
       complete_loop cov max_idx (idx + 1) (if cov idx = None then False else c)"
      using True ne by (subst complete_loop.simps) (simp add: Let_def)
    have split: "(\<forall>i. idx \<le> i \<and> i \<le> max_idx \<longrightarrow> cov i \<noteq> None) \<longleftrightarrow>
       cov idx \<noteq> None \<and> (\<forall>i. idx + 1 \<le> i \<and> i \<le> max_idx \<longrightarrow> cov i \<noteq> None)"
    proof
      assume a: "\<forall>i. idx \<le> i \<and> i \<le> max_idx \<longrightarrow> cov i \<noteq> None"
      with True show "cov idx \<noteq> None \<and> (\<forall>i. idx + 1 \<le> i \<and> i \<le> max_idx \<longrightarrow> cov i \<noteq> None)"
        by simp
    next
      assume a: "cov idx \<noteq> None \<and> (\<forall>i. idx + 1 \<le> i \<and> i \<le> max_idx \<longrightarrow> cov i \<noteq> None)"
      show "\<forall>i. idx \<le> i \<and> i \<le> max_idx \<longrightarrow> cov i \<noteq> None"
      proof (intro allI impI)
        fix i assume i: "idx \<le> i \<and> i \<le> max_idx"
        show "cov i \<noteq> None"
        proof (cases "i = idx")
          case True
          with a show ?thesis by simp
        next
          case False
          with i have "idx + 1 \<le> i \<and> i \<le> max_idx" by simp
          with a show ?thesis by blast
        qed
      qed
    qed
    show ?thesis
      unfolding unf "1.IH" [OF True refl ne "1.prems"] split by auto
  qed
qed

lemma credit_loop_sum:
  "credit_loop sols credit =
   credit + (\<Sum>sol\<leftarrow>sols. real_of_int (end_idx sol - start_idx sol + 1) * 10)"
  by (induction sols arbitrary: credit) simp_all

lemma check_set_incomplete:
  assumes merge: "merge_results results ([], Map.empty) = Inr (solutions, cov)"
    and ne: "solutions \<noteq> []"
    and gap: "0 \<le> idx" "idx \<le> max_idx_loop solutions 0" "cov idx = None"
  shows "check_set results canonicalid credit =
     Inr \<lparr>cs_retval = - 1, cs_canonicalid = canonicalid, cs_credit = credit, cs_retry = True\<rparr>"
proof -
  from merge_results_ends [OF merge] have ends: "\<forall>s\<in>set solutions. end_idx s < INT_MAX"
    by simp
  from max_idx_loop_in [of solutions 0] ends have small: "max_idx_loop solutions 0 < INT_MAX"
    by (auto simp: INT_MAX_def)
  have "\<not> (\<forall>i. 0 \<le> i \<and> i \<le> max_idx_loop solutions 0 \<longrightarrow> cov i \<noteq> None)"
    using gap by blast
  then have "complete_loop cov (max_idx_loop solutions 0) 0 True = Inr False"
    unfolding complete_loop_result [OF small] by simp
  with merge ne show ?thesis by (simp add: check_set_def)
qed

text \<open>The equations that evaluate the validator on concrete inputs.\<close>

lemmas validator_eval =
  merge_step_def result_solution_def result_of_def file_of_def parse_result_def int_ok_def
  INT_MIN_def INT_MAX_def check_overlap.simps mark_covered.simps conflict_at_def
  claimed_value_def overlap_error_def Let_def

lemmas check_set_eval = check_set_def complete_loop.simps

section \<open>Claims about the iteration-form builder\<close>

text \<open>
  Claim C6. \<open>prepare_iteration_form\<close> returns 0 exactly when every diagonal element of
  the \<open>n\<close> by \<open>n\<close> matrix has magnitude at least \<open>1e-12\<close>; and when it returns 0, every
  row \<open>i\<close> holds \<open>f[i] = b[i] / A[i][i]\<close>, \<open>C[i][j] = - A[i][j] / A[i][i]\<close> off the
  diagonal, \<open>C[i][i] = 0\<close>, and \<open>row_sum[i]\<close> is the sum of the magnitudes of row \<open>i\<close>
  of \<open>C\<close>. The matrix and the right-hand side are left as they were.
\<close>

theorem prepare_iteration_form_correct:
  "(fst (prepare_iteration_form data) = 0 \<longleftrightarrow>
      (\<forall>i<mc_n data. 1 / 10 ^ 12 \<le> \<bar>mc_A data i i\<bar>)) \<and>
   (fst (prepare_iteration_form data) = 0 \<longrightarrow>
      mc_A (snd (prepare_iteration_form data)) = mc_A data \<and>
      mc_b (snd (prepare_iteration_form data)) = mc_b data \<and>
      (\<forall>i<mc_n data.
         mc_f (snd (prepare_iteration_form data)) i = mc_b data i / mc_A data i i \<and>
         (\<forall>j<mc_n data. j \<noteq> i \<longrightarrow>
            mc_C (snd (prepare_iteration_form data)) i j = - mc_A data i j / mc_A data i i) \<and>
         mc_C (snd (prepare_iteration_form data)) i i = 0 \<and>
         mc_row_sum (snd (prepare_iteration_form data)) i =
           (\<Sum>j<mc_n data. \<bar>mc_C (snd (prepare_iteration_form data)) i j\<bar>)))"
proof (intro conjI impI allI)
  show "fst (prepare_iteration_form data) = 0 \<longleftrightarrow>
      (\<forall>i<mc_n data. 1 / 10 ^ 12 \<le> \<bar>mc_A data i i\<bar>)"
    unfolding prepare_iteration_form_def using prepare_rows_ok_iff [of data 0] by simp
next
  show "mc_A (snd (prepare_iteration_form data)) = mc_A data"
    by (simp add: prepare_iteration_form_def)
next
  show "mc_b (snd (prepare_iteration_form data)) = mc_b data"
    by (simp add: prepare_iteration_form_def)
next
  fix i assume ok: "fst (prepare_iteration_form data) = 0" and i: "i < mc_n data"
  note row = prepare_rows_row [of data 0 i, folded prepare_iteration_form_def, OF ok _ i]
  show "mc_f (snd (prepare_iteration_form data)) i = mc_b data i / mc_A data i i"
    using row by simp
  show "mc_C (snd (prepare_iteration_form data)) i i = 0"
    using row i by simp
  show "mc_row_sum (snd (prepare_iteration_form data)) i =
           (\<Sum>j<mc_n data. \<bar>mc_C (snd (prepare_iteration_form data)) i j\<bar>)"
    using row by simp
  fix j assume "j < mc_n data" "j \<noteq> i"
  then show "mc_C (snd (prepare_iteration_form data)) i j = - mc_A data i j / mc_A data i i"
    using row by auto
qed

theorem prepare_iteration_form_correct_witness:
  "1 / 10 ^ 12 \<le> \<bar>mc_A demo_system 0 0\<bar> \<and>
   1 / 10 ^ 12 \<le> \<bar>mc_A demo_system 1 1\<bar> \<and>
   fst (prepare_iteration_form demo_system) = 0 \<and>
   mc_f (snd (prepare_iteration_form demo_system)) 0 = 1 / 2 \<and>
   mc_C (snd (prepare_iteration_form demo_system)) 0 1 = - 1 / 4 \<and>
   mc_C (snd (prepare_iteration_form demo_system)) 0 0 = 0 \<and>
   mc_row_sum (snd (prepare_iteration_form demo_system)) 0 = 1 / 4"
proof -
  have diag: "\<forall>i<mc_n demo_system. 1 / 10 ^ 12 \<le> \<bar>mc_A demo_system i i\<bar>"
    by (simp add: demo_system_def)
  note main = prepare_iteration_form_correct [of demo_system]
  from main diag have ok: "fst (prepare_iteration_form demo_system) = 0"
    by blast
  have n: "mc_n demo_system = 2" by (simp add: demo_system_def)
  have lt: "(0::nat) < mc_n demo_system" "(1::nat) < mc_n demo_system"
    by (simp_all add: n)
  from main ok lt have
    f0: "mc_f (snd (prepare_iteration_form demo_system)) 0 =
           mc_b demo_system 0 / mc_A demo_system 0 0" and
    c01: "mc_C (snd (prepare_iteration_form demo_system)) 0 1 =
           - mc_A demo_system 0 1 / mc_A demo_system 0 0" and
    c00: "mc_C (snd (prepare_iteration_form demo_system)) 0 0 = 0" and
    rs: "mc_row_sum (snd (prepare_iteration_form demo_system)) 0 =
           (\<Sum>j<mc_n demo_system. \<bar>mc_C (snd (prepare_iteration_form demo_system)) 0 j\<bar>)"
    by simp_all
  have two: "{..<2::nat} = {0, 1}" by auto
  have rs': "mc_row_sum (snd (prepare_iteration_form demo_system)) 0 = 1 / 4"
    unfolding rs n two using c00 c01 by (simp add: demo_system_def)
  show ?thesis
    using diag ok f0 c01 c00 rs' by (simp add: demo_system_def)
qed

section \<open>Claims about the random walk\<close>

text \<open>
  Claim C7. For every iteration form, starting state and sequence of draws, the C loop
  of \<open>random_walk\<close> computes what the step-by-step description computes: in each of at
  most 10000 steps it adds \<open>weight * f[current_state]\<close> to the sum, returns the sum when
  the next draw is below \<open>0.1\<close>, returns it when \<open>row_sum[current_state]\<close> is below
  \<open>1e-12\<close>, and otherwise moves to the state found by cumulative-sum inversion of a
  second draw scaled by \<open>row_sum[current_state]\<close>, multiplying the weight by the sign
  factor of the chosen entry times \<open>row_sum[current_state] / (1 - 0.1)\<close>. The same number
  of draws is consumed.
\<close>

theorem random_walk_follows_spec:
  "random_walk data rnd start_state pos = spec_walk 10000 data rnd start_state 1 0 pos"
  using walk_loop_spec [of 0 data rnd "walk_init start_state pos"]
  by (simp add: random_walk_def Let_def walk_init_def MAX_STEPS_def)

text \<open>
  Claim C8. \<open>random_walk\<close> is a total function of the iteration form, the starting
  state and the sequence of draws (both of its loops carry a termination proof); it
  returns after at most 10000 executions of the statement that adds a contribution to
  the sum, having made at most two calls of the generator per step.
\<close>

theorem random_walk_bounded:
  "ws_contribs (walk_loop data rnd 0 (walk_init start_state pos)) \<le> 10000 \<and>
   (\<exists>total pos'. random_walk data rnd start_state pos = (total, pos') \<and>
      total = ws_sum (walk_loop data rnd 0 (walk_init start_state pos)) \<and>
      pos \<le> pos' \<and> pos' \<le> pos + 20000)"
  using walk_loop_contribs [of data rnd 0 "walk_init start_state pos"]
        walk_loop_pos [of "walk_init start_state pos" data rnd 0]
  by (simp add: random_walk_def Let_def walk_init_def MAX_STEPS_def)

section \<open>Claims about the component solver\<close>

text \<open>
  Claim C9. For a component range inside the arrays (\<open>0 \<le> start_idx\<close>,
  \<open>start_idx \<le> end_idx + 1\<close>, \<open>end_idx < MAX_DIM\<close>) and \<open>num_walks \<ge> 1\<close>,
  \<open>compute_solution\<close> returns normally, and for each index \<open>i\<close> of the range the entry
  \<open>i - start_idx\<close> of its output is the sum of the samples of \<open>num_walks\<close> successive
  calls of \<open>random_walk\<close> from state \<open>i\<close>, divided by \<open>num_walks\<close>. The file that
  \<open>write_output\<close> produces carries the range and exactly \<open>end_idx - start_idx + 1\<close>
  values, the \<open>k\<close>-th of them being the estimate for index \<open>start_idx + k\<close>.
\<close>

theorem compute_solution_averages:
  assumes "1 \<le> mc_num_walks data" "0 \<le> mc_start_idx data"
    "mc_start_idx data \<le> mc_end_idx data + 1" "mc_end_idx data < int MAX_DIM"
  shows "\<exists>x' pos'. compute_solution data rnd x_partial pos = Inr (x', pos') \<and>
     (\<forall>i. mc_start_idx data \<le> i \<and> i \<le> mc_end_idx data \<longrightarrow>
        x' (nat (i - mc_start_idx data)) =
          spec_estimate data rnd (nat i)
            (component_start (nat (i - mc_start_idx data)) data rnd pos)) \<and>
     (\<exists>file. write_output True data x' = (0, Some file) \<and>
        rf_range file = Some (mc_start_idx data, mc_end_idx data) \<and>
        int (length (rf_values file)) = mc_end_idx data - mc_start_idx data + 1 \<and>
        (\<forall>k<length (rf_values file). rf_values file ! k = x' k))"
proof -
  let ?nc = "mc_end_idx data - mc_start_idx data + 1"
  have ok: "int_ok (mc_end_idx data - mc_start_idx data)" "int_ok ?nc"
    using assms by (simp_all add: int_ok_def INT_MIN_def INT_MAX_def MAX_DIM_def)
  have pre: "mc_start_idx data + ?nc \<le> int MAX_DIM" "0 \<le> mc_num_walks data"
    "(0::int) \<le> 0" "0 \<le> ?nc"
    using assms by simp_all
  from components_loop_estimates [OF assms(2) pre, of pos rnd pos x_partial]
  obtain x' pos' where
    run: "components_loop data rnd ?nc 0 x_partial pos = Inr (x', pos')" and
    est: "\<forall>k. nat 0 \<le> k \<and> k < nat ?nc \<longrightarrow>
        x' k = spec_estimate data rnd (nat (mc_start_idx data) + k) (component_start k data rnd pos)"
    by auto
  have "compute_solution data rnd x_partial pos = Inr (x', pos')"
    using ok run by (simp add: compute_solution_def)
  moreover have "\<forall>i. mc_start_idx data \<le> i \<and> i \<le> mc_end_idx data \<longrightarrow>
        x' (nat (i - mc_start_idx data)) =
          spec_estimate data rnd (nat i)
            (component_start (nat (i - mc_start_idx data)) data rnd pos)"
  proof (intro allI impI)
    fix i assume i: "mc_start_idx data \<le> i \<and> i \<le> mc_end_idx data"
    then have "nat (i - mc_start_idx data) < nat ?nc" by simp
    moreover have "nat (mc_start_idx data) + nat (i - mc_start_idx data) = nat i"
      using i assms(2) by arith
    ultimately show "x' (nat (i - mc_start_idx data)) =
          spec_estimate data rnd (nat i)
            (component_start (nat (i - mc_start_idx data)) data rnd pos)"
      using est by auto
  qed
  moreover have "\<exists>file. write_output True data x' = (0, Some file) \<and>
        rf_range file = Some (mc_start_idx data, mc_end_idx data) \<and>
        int (length (rf_values file)) = ?nc \<and>
        (\<forall>k<length (rf_values file). rf_values file ! k = x' k)"
    using assms(3) by (simp add: write_output_def)
  ultimately show ?thesis by blast
qed

theorem compute_solution_averages_witness:
  "\<exists>x' pos'. compute_solution demo_form (\<lambda>k. 0) (\<lambda>k. 0) 0 = Inr (x', pos') \<and>
     x' 0 = 1 / 2 \<and> x' 1 = 1 / 2 \<and>
     fst (write_output True demo_form x') = 0"
proof -
  have hyps: "1 \<le> mc_num_walks demo_form" "0 \<le> mc_start_idx demo_form"
    "mc_start_idx demo_form \<le> mc_end_idx demo_form + 1" "mc_end_idx demo_form < int MAX_DIM"
    by (simp_all add: demo_form_def demo_system_def MAX_DIM_def)
  from compute_solution_averages [OF hyps, of "\<lambda>k. 0" "\<lambda>k. 0" 0]
  obtain x' pos' where
    run: "compute_solution demo_form (\<lambda>k. 0) (\<lambda>k. 0) 0 = Inr (x', pos')" and
    est: "\<forall>i. mc_start_idx demo_form \<le> i \<and> i \<le> mc_end_idx demo_form \<longrightarrow>
        x' (nat (i - mc_start_idx demo_form)) =
          spec_estimate demo_form (\<lambda>k. 0) (nat i)
            (component_start (nat (i - mc_start_idx demo_form)) demo_form (\<lambda>k. 0) 0)"
    by blast
  have f: "mc_f demo_form = (\<lambda>i. 1 / 2)" "mc_num_walks demo_form = 2"
    "mc_start_idx demo_form = 0" "mc_end_idx demo_form = 1"
    by (simp_all add: demo_form_def demo_system_def)
  have e0: "x' 0 = 1 / 2"
    using est [rule_format, of 0]
    by (simp add: spec_estimate_def numeral_2_eq_2 Let_def random_walk_first_draw_zero f)
  have e1: "x' 1 = 1 / 2"
    using est [rule_format, of 1]
    by (simp add: spec_estimate_def numeral_2_eq_2 Let_def random_walk_first_draw_zero f)
  show ?thesis
    using run e0 e1 by (simp add: write_output_def)
qed

section \<open>Claims about the merge of partial solutions\<close>




text \<open>
  Claim C2, as amended. Let the results parse to solutions with non-empty ranges that
  are pairwise disjoint and together cover exactly \<open>0 .. n - 1\<close>. Then the merge accepts
  every solution, in order of arrival; \<open>check_set\<close> returns 0 without the retry signal;
  and at every index the coverage map, read through the list of accepted solutions,
  holds the value submitted for that index. Since no two ranges overlap, no values are
  ever compared.
\<close>

theorem full_partition_merges:
  assumes parsed: "map result_solution results = map (\<lambda>s. Inr (Some s)) sols"
    and n: "0 < n" "n \<le> INT_MAX"
    and wf: "\<forall>s\<in>set sols. 0 \<le> start_idx s \<and> start_idx s \<le> end_idx s \<and> end_idx s < n"
    and disj: "disjoint_ranges sols"
    and full: "\<forall>i. 0 \<le> i \<and> i < n \<longrightarrow> (\<exists>s\<in>set sols. covers s i)"
  shows "\<exists>cov out. merge_results results ([], Map.empty) = Inr (sols, cov) \<and>
     check_set results canonicalid credit = Inr out \<and> cs_retval out = 0 \<and> \<not> cs_retry out \<and>
     (\<forall>k<length sols. \<forall>i. covers (sols ! k) i \<longrightarrow>
        claimed_value sols cov i = Some (values' (sols ! k) ! nat (i - start_idx (sols ! k)))) \<and>
     (\<forall>i. 0 \<le> i \<and> i < n \<longrightarrow> claimed_value sols cov i \<noteq> None)"
proof -
  have p2: "\<forall>s\<in>set sols. start_idx s \<le> end_idx s \<and> end_idx s < INT_MAX"
    using wf n by auto
  have p3: "\<forall>s\<in>set sols. \<forall>i. covers s i \<longrightarrow> Map.empty i = (None :: nat option)"
    by simp
  from merge_results_disjoint [OF parsed p2 p3 disj, of "[]"]
  obtain cov where
    run: "merge_results results ([], Map.empty) = Inr (sols, cov)" and
    inside: "\<forall>k<length sols. \<forall>i. covers (sols ! k) i \<longrightarrow> cov i = Some k"
    by auto
  from full n obtain s0 where "s0 \<in> set sols" by force
  then have ne: "sols \<noteq> []" by auto
  have len: "length results = length sols"
    using parsed by (rule map_eq_imp_length_eq)
  with ne obtain first others where res: "results = first # others"
    by (cases results) auto
  have claimed: "\<forall>i. 0 \<le> i \<and> i < n \<longrightarrow> cov i \<noteq> None"
  proof (intro allI impI)
    fix i assume "0 \<le> i \<and> i < n"
    with full obtain s where "s \<in> set sols" "covers s i" by blast
    then obtain k where "k < length sols" "covers (sols ! k) i"
      by (auto simp: in_set_conv_nth)
    with inside show "cov i \<noteq> None" by auto
  qed
  have small: "max_idx_loop sols 0 < n"
    using max_idx_loop_in [of sols 0] wf n by auto
  with n have "max_idx_loop sols 0 < INT_MAX" by simp
  from complete_loop_result [OF this, of cov 0 True] claimed small
  have "complete_loop cov (max_idx_loop sols 0) 0 True = Inr True"
    by simp
  with run ne res
  have out: "check_set results canonicalid credit =
     Inr \<lparr>cs_retval = 0, cs_canonicalid = res_id first,
          cs_credit = credit_loop sols 0, cs_retry = False\<rparr>"
    by (simp add: check_set_def)
  have vals: "\<forall>k<length sols. \<forall>i. covers (sols ! k) i \<longrightarrow>
        claimed_value sols cov i = Some (values' (sols ! k) ! nat (i - start_idx (sols ! k)))"
    using inside by (simp add: claimed_value_def)
  have "\<forall>i. 0 \<le> i \<and> i < n \<longrightarrow> claimed_value sols cov i \<noteq> None"
    using claimed by (auto simp: claimed_value_def split: option.splits)
  with run out vals show ?thesis by simp
qed

theorem full_partition_merges_witness:
  "\<exists>cov out.
     merge_results [result_of 1 0 1 [10, 20], result_of 2 2 2 [30]] ([], Map.empty) =
       Inr ([\<lparr>start_idx = 0, end_idx = 1, values' = [10, 20]\<rparr>,
             \<lparr>start_idx = 2, end_idx = 2, values' = [30]\<rparr>], cov) \<and>
     check_set [result_of 1 0 1 [10, 20], result_of 2 2 2 [30]] 0 0 = Inr out \<and>
     cs_retval out = 0 \<and> \<not> cs_retry out \<and>
     claimed_value [\<lparr>start_idx = 0, end_idx = 1, values' = [10, 20]\<rparr>,
                    \<lparr>start_idx = 2, end_idx = 2, values' = [30]\<rparr>] cov 0 = Some 10 \<and>
     claimed_value [\<lparr>start_idx = 0, end_idx = 1, values' = [10, 20]\<rparr>,
                    \<lparr>start_idx = 2, end_idx = 2, values' = [30]\<rparr>] cov 1 = Some 20 \<and>
     claimed_value [\<lparr>start_idx = 0, end_idx = 1, values' = [10, 20]\<rparr>,
                    \<lparr>start_idx = 2, end_idx = 2, values' = [30]\<rparr>] cov 2 = Some 30"
proof -
  let ?s1 = "\<lparr>start_idx = 0, end_idx = 1, values' = [10, 20]\<rparr>"
  let ?s2 = "\<lparr>start_idx = 2, end_idx = 2, values' = [30]\<rparr>"
  let ?results = "[result_of 1 0 1 [10, 20], result_of 2 2 2 [30]]"
  have p1: "result_solution (result_of 1 0 1 [10, 20]) = Inr (Some ?s1)"
    by (rule result_solution_result_of) (simp_all add: int_ok_def INT_MIN_def INT_MAX_def)
  have p2: "result_solution (result_of 2 2 2 [30]) = Inr (Some ?s2)"
    by (rule result_solution_result_of) (simp_all add: int_ok_def INT_MIN_def INT_MAX_def)
  have parsed: "map result_solution ?results = map (\<lambda>s. Inr (Some s)) [?s1, ?s2]"
    using p1 p2 by simp
  have n: "(0::int) < 3" "3 \<le> INT_MAX" by (simp_all add: INT_MAX_def)
  have wf: "\<forall>s\<in>set [?s1, ?s2]. 0 \<le> start_idx s \<and> start_idx s \<le> end_idx s \<and> end_idx s < 3"
    by simp
  have disj: "disjoint_ranges [?s1, ?s2]" by simp
  have full: "\<forall>i. 0 \<le> i \<and> i < 3 \<longrightarrow> (\<exists>s\<in>set [?s1, ?s2]. covers s i)"
    by (auto simp: covers_def)
  from full_partition_merges [OF parsed n wf disj full, of 0 0]
  obtain cov out where
    run: "merge_results ?results ([], Map.empty) = Inr ([?s1, ?s2], cov)" and
    out: "check_set ?results 0 0 = Inr out" "cs_retval out = 0" "\<not> cs_retry out" and
    vals: "\<forall>k<length [?s1, ?s2]. \<forall>i. covers ([?s1, ?s2] ! k) i \<longrightarrow>
        claimed_value [?s1, ?s2] cov i =
          Some (values' ([?s1, ?s2] ! k) ! nat (i - start_idx ([?s1, ?s2] ! k)))"
    by blast
  from vals [rule_format, of 0 0] have v0: "claimed_value [?s1, ?s2] cov 0 = Some 10"
    by (simp add: covers_def)
  from vals [rule_format, of 0 1] have v1: "claimed_value [?s1, ?s2] cov 1 = Some 20"
    by (simp add: covers_def)
  from vals [rule_format, of 1 2] have v2: "claimed_value [?s1, ?s2] cov 2 = Some 30"
    by (simp add: covers_def)
  from run out v0 v1 v2 show ?thesis by blast
qed

text \<open>
  The claim as stated speaks of an emitted array of merged values. \<open>check_set\<close> emits a
  return code, the canonical identity, the credit and the retry flag, and nothing else:
  two inputs that differ only in the submitted value give the same output.
\<close>

theorem merge_output_ignores_values:
  "check_set [result_of 1 0 0 [1]] 0 0 =
     Inr \<lparr>cs_retval = 0, cs_canonicalid = 1, cs_credit = 10, cs_retry = False\<rparr> \<and>
   check_set [result_of 1 0 0 [2]] 0 0 =
     Inr \<lparr>cs_retval = 0, cs_canonicalid = 1, cs_credit = 10, cs_retry = False\<rparr>"
  by (simp add: validator_eval check_set_eval)

text \<open>
  Claim C3. When the accepted solutions leave an index between 0 and the highest end
  index among them unclaimed, \<open>check_set\<close> returns \<open>-1\<close> with \<open>retry\<close> set and leaves
  \<open>canonicalid\<close> and \<open>credit\<close> as they were; the maximum it computes is that highest end
  index. The witness is the input with the ranges \<open>[0,2]\<close> and \<open>[4,6]\<close>: index 3 is
  unclaimed and the maximum is 6.
\<close>

theorem gap_in_coverage_fails_with_retry:
  assumes "merge_results results ([], Map.empty) = Inr (solutions, cov)"
    and "solutions \<noteq> []"
    and "0 \<le> idx" "idx \<le> Max (end_idx ` set solutions)" "cov idx = None"
  shows "check_set results canonicalid credit =
           Inr \<lparr>cs_retval = - 1, cs_canonicalid = canonicalid, cs_credit = credit,
                cs_retry = True\<rparr> \<and>
         max_idx_loop solutions 0 = Max (end_idx ` set solutions)"
proof -
  from assms(3,4) have "max 0 (Max (end_idx ` set solutions)) = Max (end_idx ` set solutions)"
    by simp
  with max_idx_loop_Max [OF assms(2)]
  have m: "max_idx_loop solutions 0 = Max (end_idx ` set solutions)" by simp
  with assms(4) have "idx \<le> max_idx_loop solutions 0" by simp
  from check_set_incomplete [OF assms(1,2,3) this assms(5)] m show ?thesis by simp
qed

theorem gap_in_coverage_fails_with_retry_witness:
  "check_set [result_of 1 0 2 [1, 2, 3], result_of 2 4 6 [5, 6, 7]] 0 0 =
     Inr \<lparr>cs_retval = - 1, cs_canonicalid = 0, cs_credit = 0, cs_retry = True\<rparr> \<and>
   max_idx_loop [\<lparr>start_idx = 0, end_idx = 2, values' = [1, 2, 3]\<rparr>,
                 \<lparr>start_idx = 4, end_idx = 6, values' = [5, 6, 7]\<rparr>] 0 = 6"
proof -
  let ?s1 = "\<lparr>start_idx = 0, end_idx = 2, values' = [1, 2, 3]\<rparr>"
  let ?s2 = "\<lparr>start_idx = 4, end_idx = 6, values' = [5, 6, 7]\<rparr>"
  let ?cov = "[0 \<mapsto> 0, 1 \<mapsto> 0, 2 \<mapsto> 0, 4 \<mapsto> 1, 5 \<mapsto> 1, 6 \<mapsto> 1] :: int \<rightharpoonup> nat"
  have merge: "merge_results [result_of 1 0 2 [1, 2, 3], result_of 2 4 6 [5, 6, 7]]
                 ([], Map.empty) = Inr ([?s1, ?s2], ?cov)"
    by (simp add: validator_eval)
  have hyps: "[?s1, ?s2] \<noteq> []" "(0::int) \<le> 3" "3 \<le> Max (end_idx ` set [?s1, ?s2])"
    "?cov 3 = None"
    by simp_all
  from gap_in_coverage_fails_with_retry [OF merge hyps, of 0 0] show ?thesis by simp
qed

text \<open>
  Claim C4 says that the canonical identity of a successful merge belongs to a result
  whose solution was accepted. \<open>check_set\<close> takes \<open>results[0].id\<close> without looking at
  what became of that result. Here result 7 declares the range \<open>[0,1]\<close> but holds one
  value, so \<open>parse_result\<close> fails and the result is skipped; result 8 alone covers
  \<open>[0,0]\<close>; the merge succeeds and names result 7 canonical.
\<close>

theorem canonical_result_was_skipped:
  "result_solution \<lparr>res_id = 7, res_infos_retval = 0, res_files = [file_of 0 1 [1]]\<rparr> = Inr None \<and>
   merge_results
     [\<lparr>res_id = 7, res_infos_retval = 0, res_files = [file_of 0 1 [1]]\<rparr>,
      result_of 8 0 0 [1]] ([], Map.empty) =
     Inr ([\<lparr>start_idx = 0, end_idx = 0, values' = [1]\<rparr>], [0 \<mapsto> 0]) \<and>
   check_set
     [\<lparr>res_id = 7, res_infos_retval = 0, res_files = [file_of 0 1 [1]]\<rparr>,
      result_of 8 0 0 [1]] 0 0 =
     Inr \<lparr>cs_retval = 0, cs_canonicalid = 7, cs_credit = 10, cs_retry = False\<rparr>"
  by (simp add: validator_eval check_set_eval)

text \<open>
  Claim C5. When \<open>check_set\<close> returns 0, the credit it grants is the sum over the
  accepted solutions of \<open>end_idx - start_idx + 1\<close> times 10. A partial solution carries no
  walk count, so none enters. The witness has three ranges of 3, 4 and 5 components and
  a credit of 12 times 10.
\<close>

theorem credit_is_ten_per_component:
  assumes "check_set results canonicalid credit = Inr out" and "cs_retval out = 0"
  shows "\<exists>solutions cov. merge_results results ([], Map.empty) = Inr (solutions, cov) \<and>
     cs_credit out = (\<Sum>sol\<leftarrow>solutions. real_of_int (end_idx sol - start_idx sol + 1) * 10)"
  using assms
  by (auto simp: check_set_def credit_loop_sum split: sum.splits if_splits list.splits)

theorem credit_is_ten_per_component_witness:
  "check_set [result_of 1 0 2 [1, 2, 3], result_of 2 3 6 [4, 5, 6, 7],
              result_of 3 7 11 [8, 9, 10, 11, 12]] 0 0 =
     Inr \<lparr>cs_retval = 0, cs_canonicalid = 1, cs_credit = 12 * 10, cs_retry = False\<rparr> \<and>
   (\<exists>solutions cov.
      merge_results [result_of 1 0 2 [1, 2, 3], result_of 2 3 6 [4, 5, 6, 7],
                     result_of 3 7 11 [8, 9, 10, 11, 12]] ([], Map.empty) =
        Inr (solutions, cov) \<and>
      12 * 10 = (\<Sum>sol\<leftarrow>solutions. real_of_int (end_idx sol - start_idx sol + 1) * 10))"
proof -
  let ?results = "[result_of 1 0 2 [1, 2, 3], result_of 2 3 6 [4, 5, 6, 7],
                   result_of 3 7 11 [8, 9, 10, 11, 12]]"
  let ?out = "\<lparr>cs_retval = 0, cs_canonicalid = 1, cs_credit = 12 * 10, cs_retry = False\<rparr>"
  have run: "check_set ?results 0 0 = Inr ?out"
    by (simp add: validator_eval check_set_eval)
  have ok: "cs_retval ?out = 0" by simp
  from credit_is_ten_per_component [OF run ok] run show ?thesis by simp
qed

text \<open>
  Claim C10. Let a solution arrive whose value at every index of its range is within the
  tolerance of the value currently claimed there, or whose index is unclaimed (and whose
  end index is below \<open>INT_MAX\<close>, as the loop counter requires). Then the solution is
  appended to the accepted ones and every index of its range is mapped to it in the
  coverage map, whether or not the index was claimed before; the value that later
  overlap checks read at such an index is the new solution's value, not the earlier
  claimant's. Indices outside its range keep their claims.
\<close>

theorem consistent_solution_overwrites_claims:
  assumes "result_solution r = Inr (Some sol)"
    and "end_idx sol < INT_MAX"
    and "\<forall>i. start_idx sol \<le> i \<and> i \<le> end_idx sol \<longrightarrow>
           (case claimed_value solutions cov i of
              None \<Rightarrow> True
            | Some prev \<Rightarrow> overlap_error (values' sol ! nat (i - start_idx sol)) prev \<le> 1 / 100)"
  shows "\<exists>cov'. merge_step r (solutions, cov) = Inr (solutions @ [sol], cov') \<and>
     (\<forall>i. start_idx sol \<le> i \<and> i \<le> end_idx sol \<longrightarrow>
        cov' i = Some (length solutions) \<and>
        claimed_value (solutions @ [sol]) cov' i = Some (values' sol ! nat (i - start_idx sol))) \<and>
     (\<forall>i. \<not> (start_idx sol \<le> i \<and> i \<le> end_idx sol) \<longrightarrow> cov' i = cov i)"
proof -
  have "\<forall>i. start_idx sol \<le> i \<and> i \<le> end_idx sol \<longrightarrow> \<not> conflict_at solutions cov sol i"
    using assms(3) by (auto simp: conflict_at_def split: option.splits)
  moreover from assms(2) have "end_idx sol < INT_MAX \<or> end_idx sol < start_idx sol" by simp
  ultimately have "check_overlap solutions cov sol (start_idx sol) = Inr True"
    by (rule check_overlap_clear)
  from merge_step_accept [OF assms(1) this] show ?thesis
    by (simp add: claimed_value_def)
qed

theorem consistent_solution_overwrites_claims_witness:
  "\<exists>cov'. merge_step (result_of 2 1 2 [504 / 100, 7])
            ([\<lparr>start_idx = 0, end_idx = 1, values' = [1, 5]\<rparr>],
             \<lambda>k. if 0 \<le> k \<and> k \<le> 1 then Some 0 else None) =
          Inr ([\<lparr>start_idx = 0, end_idx = 1, values' = [1, 5]\<rparr>,
                \<lparr>start_idx = 1, end_idx = 2, values' = [504 / 100, 7]\<rparr>], cov') \<and>
     cov' 0 = Some 0 \<and> cov' 1 = Some 1 \<and> cov' 2 = Some 1 \<and>
     claimed_value [\<lparr>start_idx = 0, end_idx = 1, values' = [1, 5]\<rparr>,
                    \<lparr>start_idx = 1, end_idx = 2, values' = [504 / 100, 7]\<rparr>] cov' 1
       = Some (504 / 100)"
proof -
  let ?s1 = "\<lparr>start_idx = 0, end_idx = 1, values' = [1, 5]\<rparr>"
  let ?s2 = "\<lparr>start_idx = 1, end_idx = 2, values' = [504 / 100, 7]\<rparr>"
  let ?cov = "\<lambda>k::int. if 0 \<le> k \<and> k \<le> 1 then Some (0::nat) else None"
  have p2: "result_solution (result_of 2 1 2 [504 / 100, 7]) = Inr (Some ?s2)"
    by (rule result_solution_result_of) (simp_all add: int_ok_def INT_MIN_def INT_MAX_def)
  have small: "end_idx ?s2 < INT_MAX" by (simp add: INT_MAX_def)
  have ok: "\<forall>i. start_idx ?s2 \<le> i \<and> i \<le> end_idx ?s2 \<longrightarrow>
           (case claimed_value [?s1] ?cov i of
              None \<Rightarrow> True
            | Some prev \<Rightarrow> overlap_error (values' ?s2 ! nat (i - start_idx ?s2)) prev \<le> 1 / 100)"
  proof (intro allI impI)
    fix i :: int
    assume "start_idx ?s2 \<le> i \<and> i \<le> end_idx ?s2"
    then have "i = 1 \<or> i = 2" by auto
    then show "case claimed_value [?s1] ?cov i of
              None \<Rightarrow> True
            | Some prev \<Rightarrow> overlap_error (values' ?s2 ! nat (i - start_idx ?s2)) prev \<le> 1 / 100"
      by (auto simp: claimed_value_def overlap_error_def Let_def)
  qed
  from consistent_solution_overwrites_claims [OF p2 small ok]
  obtain cov' where
    step: "merge_step (result_of 2 1 2 [504 / 100, 7]) ([?s1], ?cov) = Inr ([?s1] @ [?s2], cov')" and
    inside: "\<forall>i. start_idx ?s2 \<le> i \<and> i \<le> end_idx ?s2 \<longrightarrow>
        cov' i = Some (length [?s1]) \<and>
        claimed_value ([?s1] @ [?s2]) cov' i = Some (values' ?s2 ! nat (i - start_idx ?s2))" and
    outside: "\<forall>i. \<not> (start_idx ?s2 \<le> i \<and> i \<le> end_idx ?s2) \<longrightarrow> cov' i = ?cov i"
    by blast
  from inside [rule_format, of 1] inside [rule_format, of 2] outside [rule_format, of 0] step
  show ?thesis by (intro exI [of _ cov']) simp
qed

end
